theory Spec2Isabelle
  imports Main "HOL-Library.Sublist"
begin

section \<open>Heading levels (main.py, lines 18-42 and 70-76)\<close>

text \<open>
  Page text is a Python \<open>str\<close>, modelled as a \<open>string\<close>. The newline character is
  the only one the multi-line anchor \<open>^\<close> of Python's \<open>re\<close> looks at.
\<close>

definition LOWEST_HEADER_LEVEL :: nat where
  "LOWEST_HEADER_LEVEL = 8"

definition NL :: char where
  "NL = CHR 0x0A"

text \<open>\<open>header_text(level)\<close>: \<open>"#" * level + " "\<close>.\<close>

definition header_text :: "nat \<Rightarrow> string" where
  "header_text level = replicate level CHR ''#'' @ '' ''"

text \<open>
  The text cut at every newline: \<open>text_lines\<close> never returns the empty list, a
  text that ends in a newline has a last empty line, and \<open>join_lines\<close> puts the
  newlines back.
\<close>

fun text_lines :: "string \<Rightarrow> string list" where
  "text_lines [] = [[]]"
| "text_lines (c # cs) =
     (if c = NL then [] # text_lines cs
      else (case text_lines cs of [] \<Rightarrow> [[c]] | l # ls \<Rightarrow> (c # l) # ls))"

fun join_lines :: "string list \<Rightarrow> string" where
  "join_lines [] = []"
| "join_lines [l] = l"
| "join_lines (l # ls) = l @ NL # join_lines ls"

text \<open>
  \<open>header_re(level)\<close> compiles \<open>"^" + header_text(level)\<close> with \<open>re.MULTILINE\<close>:
  the pattern matches at the start of the text and right after every newline, where
  the text goes on with \<open>header_text(level)\<close>. A match holds no newline and ends in a
  space, so no two matches overlap and no match starts where another ends: the
  matches are the lines that begin with \<open>header_text(level)\<close>. \<open>header_search\<close> is
  \<open>header_re(level).search(md) is not None\<close>, \<open>header_sub\<close> is
  \<open>header_re(level).sub(replacement, md)\<close>.
\<close>

definition line_sub :: "nat \<Rightarrow> string \<Rightarrow> string \<Rightarrow> string" where
  "line_sub level replacement l =
     (if prefix (header_text level) l then replacement @ drop (Suc level) l else l)"

definition header_search :: "nat \<Rightarrow> string \<Rightarrow> bool" where
  "header_search level md = list_ex (prefix (header_text level)) (text_lines md)"

definition header_sub :: "nat \<Rightarrow> string \<Rightarrow> string \<Rightarrow> string" where
  "header_sub level replacement md =
     join_lines (map (line_sub level replacement) (text_lines md))"

text \<open>\<open>get_top_level_header\<close>: the first level of 1..7 that has a match, or \<open>None\<close>.\<close>

definition get_top_level_header :: "string \<Rightarrow> nat option" where
  "get_top_level_header md =
     find (\<lambda>level. header_search level md) [1..<LOWEST_HEADER_LEVEL]"

text \<open>
  Lines 70-76 of \<open>export_doc\<close>: the list \<open>replacements\<close> is built first, then the
  substitutions run one after the other, each on the text the one before left.
  \<open>x - original_top_level + 1\<close> is never negative, since \<open>x\<close> starts at
  \<open>original_top_level\<close>.
\<close>

definition replacements :: "nat \<Rightarrow> (nat \<times> string) list" where
  "replacements original_top_level =
     map (\<lambda>x. (x, header_text (x - original_top_level + 1)))
       [original_top_level..<LOWEST_HEADER_LEVEL]"

definition decrease_header_level :: "string \<Rightarrow> string" where
  "decrease_header_level md =
     (case get_top_level_header md of
        None \<Rightarrow> md
      | Some original_top_level \<Rightarrow>
          if original_top_level \<noteq> 1
          then foldl (\<lambda>md (find_re, replacement). header_sub find_re replacement md)
                 md (replacements original_top_level)
          else md)"

text \<open>
  The rewrite as the specification words it: the new level of every level from
  \<open>t\<close> to 7 is fixed first, then every line of the original text that is a heading
  of one of these levels is rewritten, in one pass.
\<close>

definition spec_level_map :: "nat \<Rightarrow> nat \<Rightarrow> nat option" where
  "spec_level_map t L = (if t \<le> L \<and> L < LOWEST_HEADER_LEVEL then Some (L - t + 1) else None)"

definition spec_rewrite_line :: "nat \<Rightarrow> string \<Rightarrow> string" where
  "spec_rewrite_line t l =
     (case find (\<lambda>L. prefix (header_text L) l) [t..<LOWEST_HEADER_LEVEL] of
        None \<Rightarrow> l
      | Some L \<Rightarrow> header_text (the (spec_level_map t L)) @ drop (Suc L) l)"

definition spec_rewrite_one_pass :: "nat \<Rightarrow> string \<Rightarrow> string" where
  "spec_rewrite_one_pass t md = join_lines (map (spec_rewrite_line t) (text_lines md))"

text \<open>
  The level of a line as a heading, of any depth: the number of \<open>#\<close> it begins
  with, when there is one at least and a space follows.
\<close>

definition heading_level :: "string \<Rightarrow> nat option" where
  "heading_level l =
     (let n = length (takeWhile (\<lambda>c. c = CHR ''#'') l)
      in if 0 < n \<and> prefix '' '' (drop n l) then Some n else None)"

text \<open>
  What the substitutions of lines 73-76 do to one line, when the top level is \<open>t\<close>:
  a heading of a level from \<open>t\<close> to 7 moves up by \<open>t - 1\<close> levels, any other line
  stays.
\<close>

definition shift_line :: "nat \<Rightarrow> string \<Rightarrow> string" where
  "shift_line t l =
     (case heading_level l of
        None \<Rightarrow> l
      | Some L \<Rightarrow> if t \<le> L \<and> L < LOWEST_HEADER_LEVEL
                  then header_text (L - t + 1) @ drop (Suc L) l else l)"

text \<open>The text after the first \<open>n\<close> substitutions of the loop of lines 75-76.\<close>

definition text_after :: "nat \<Rightarrow> nat \<Rightarrow> string \<Rightarrow> string" where
  "text_after n t md =
     foldl (\<lambda>md (find_re, replacement). header_sub find_re replacement md)
       md (take n (replacements t))"

text \<open>
  Two lines keep their relative depth: both stay headings or both stay plain text, and
  the deeper of two headings stays the deeper one.
\<close>

fun same_depth_order :: "nat option \<Rightarrow> nat option \<Rightarrow> nat option \<Rightarrow> nat option \<Rightarrow> bool" where
  "same_depth_order (Some a) (Some b) (Some a') (Some b') = ((a < b) = (a' < b'))"
| "same_depth_order (Some a) (Some b) _ _ = False"
| "same_depth_order None _ a' _ = (a' = None)"
| "same_depth_order _ None _ b' = (b' = None)"

section \<open>Python strings (the \<open>str\<close> methods and slices the code uses)\<close>

text \<open>
  A character is a \<open>char\<close>; code points above 255 are outside the model.
  \<open>py_replace old new s\<close> is \<open>s.replace(old, new)\<close>: the occurrences of \<open>old\<close> are
  found from the left, without overlap, and \<open>new\<close> is not searched again. For an empty
  \<open>old\<close> Python puts \<open>new\<close> before every character and at the end.
\<close>

function py_replace :: "string \<Rightarrow> string \<Rightarrow> string \<Rightarrow> string" where
  "py_replace old new s =
     (if old = [] then new @ concat (map (\<lambda>c. c # new) s)
      else if prefix old s then new @ py_replace old new (drop (length old) s)
      else (case s of [] \<Rightarrow> [] | c # cs \<Rightarrow> c # py_replace old new cs))"
  by pat_completeness auto
termination
  by (relation "measure (\<lambda>(old, new, s). length s)") (auto simp: prefix_def)

text \<open>\<open>rstrip chars s\<close> is \<open>s.rstrip(chars)\<close>.\<close>

definition rstrip :: "string \<Rightarrow> string \<Rightarrow> string" where
  "rstrip chars s = rev (dropWhile (\<lambda>c. c \<in> set chars) (rev s))"

text \<open>
  \<open>py_slice s i j\<close> is \<open>s[i:j]\<close>: a negative index counts from the end of the string,
  then both are cut to the range from 0 to the length, and the slice is empty when the
  start is not before the stop.
\<close>

definition slice_index :: "nat \<Rightarrow> int \<Rightarrow> nat" where
  "slice_index n i = (if i < 0 then nat (int n + i) else min (nat i) n)"

definition py_slice :: "string \<Rightarrow> int \<Rightarrow> int \<Rightarrow> string" where
  "py_slice s i j = drop (slice_index (length s) i) (take (slice_index (length s) j) s)"

text \<open>
  \<open>splitlines s\<close> is \<open>s.splitlines()\<close>: the line boundaries are line feed, carriage
  return (with a line feed after it, one boundary), vertical tab, form feed, the file,
  group and record separators and the next-line character; they are dropped, and a
  boundary at the very end opens no further line.
\<close>

definition line_boundary :: "char \<Rightarrow> bool" where
  "line_boundary c \<longleftrightarrow>
     c \<in> {CHR 0x0A, CHR 0x0B, CHR 0x0C, CHR 0x0D, CHR 0x1C, CHR 0x1D, CHR 0x1E, CHR 0x85}"

fun splitlines_from :: "string \<Rightarrow> string \<Rightarrow> string list" where
  "splitlines_from cur [] = (if cur = [] then [] else [rev cur])"
| "splitlines_from cur (c # cs) =
     (if c = CHR 0x0D \<and> prefix [CHR 0x0A] cs then rev cur # splitlines_from [] (tl cs)
      else if line_boundary c then rev cur # splitlines_from [] cs
      else splitlines_from (c # cur) cs)"

definition splitlines :: "string \<Rightarrow> string list" where
  "splitlines s = splitlines_from [] s"

declare py_replace.simps [simp del]

section \<open>Regular expressions (the part of Python's \<open>re\<close> the templates use)\<close>

text \<open>
  \<open>IMAGE_LINK_REGEX_TEMPLATE\<close> and \<open>INTERNAL_LINK_REGEX_TEMPLATE\<close>, lines 21 and 23,
  as the raw strings stand in the source.
\<close>

definition IMAGE_LINK_REGEX_TEMPLATE :: string where
  "IMAGE_LINK_REGEX_TEMPLATE =
     [CHR 0x5C] @ ''['' @ [CHR 0x5C] @ ''!'' @ [CHR 0x5C] @ ''[.+'' @ [CHR 0x5C] @ '']'' @
     [CHR 0x5C] @ ''(__BASE_URL__/uploads/.*?'' @ [CHR 0x5C] @ ''.'' @ [CHR 0x5C] @ ''w{3}'' @
     [CHR 0x5C] @ '')'' @ [CHR 0x5C] @ '']'' @ [CHR 0x5C] @
     ''((__BASE_URL__/uploads/.*?/([^/]*?'' @ [CHR 0x5C] @ ''.'' @ [CHR 0x5C] @ ''w{3}))'' @
     [CHR 0x5C] @ '')''"

definition INTERNAL_LINK_REGEX_TEMPLATE :: string where
  "INTERNAL_LINK_REGEX_TEMPLATE = ''__BASE_URL__/books/(.+?)/page/(.+?)'' @ [CHR 0x5C] @ '')''"

text \<open>
  A compiled pattern is a sequence of items: one character of a class, a class repeated
  (at least \<open>lo\<close> times, at most \<open>hi\<close> times when there is a bound, greedy or lazy), and
  the opening and closing parenthesis of a numbered group. The templates need no
  more: every quantifier in them stands after a single character or class, and there
  is no alternation.
\<close>

datatype cset = Lit char | AnyChar | WordChar | OneOf "char list" | NoneOf "char list"

datatype re_item = Atom cset | Rep cset nat "nat option" bool | GOpen nat | GClose nat

text \<open>
  \<open>\w\<close> in a \<open>str\<close> pattern is a character that \<open>isalnum()\<close> holds of, or the
  underscore; below 256 these are the ASCII letters and digits and the letters and
  numbers of Latin-1.
\<close>

definition word_char :: "char \<Rightarrow> bool" where
  "word_char c \<longleftrightarrow>
     (let n = of_char c :: nat
      in (48 \<le> n \<and> n \<le> 57) \<or> (65 \<le> n \<and> n \<le> 90) \<or> n = 95 \<or> (97 \<le> n \<and> n \<le> 122) \<or>
         n = 170 \<or> n = 178 \<or> n = 179 \<or> n = 181 \<or> n = 185 \<or> n = 186 \<or>
         (188 \<le> n \<and> n \<le> 190) \<or> (192 \<le> n \<and> n \<le> 214) \<or> (216 \<le> n \<and> n \<le> 246) \<or>
         248 \<le> n)"

text \<open>The dot matches every character but the line feed (no \<open>DOTALL\<close> flag).\<close>

fun cmatch :: "cset \<Rightarrow> char \<Rightarrow> bool" where
  "cmatch (Lit c) x = (x = c)"
| "cmatch AnyChar x = (x \<noteq> CHR 0x0A)"
| "cmatch WordChar x = word_char x"
| "cmatch (OneOf cs) x = (x \<in> set cs)"
| "cmatch (NoneOf cs) x = (x \<notin> set cs)"

fun first_some :: "('a \<Rightarrow> 'b option) \<Rightarrow> 'a list \<Rightarrow> 'b option" where
  "first_some f [] = None"
| "first_some f (x # xs) = (case f x of Some y \<Rightarrow> Some y | None \<Rightarrow> first_some f xs)"

text \<open>
  The numbers of repetitions a repeated class can take where \<open>rest\<close> begins, in the order
  the backtracking matcher tries them: a greedy one from the most to the least, a
  lazy one from the least to the most.
\<close>

definition rep_counts :: "cset \<Rightarrow> nat \<Rightarrow> nat option \<Rightarrow> bool \<Rightarrow> string \<Rightarrow> nat list" where
  "rep_counts c lo hi greedy rest =
     (let run = length (takeWhile (cmatch c) rest);
          most = (case hi of None \<Rightarrow> run | Some h \<Rightarrow> min h run)
      in if greedy then rev [lo..<Suc most] else [lo..<Suc most])"

text \<open>
  \<open>match_items its rest pos starts spans stop\<close> matches the items at the text \<open>rest\<close>,
  which begins at offset \<open>pos\<close> of the whole text, and returns the offset where the match
  ends and the spans of the groups, or \<open>None\<close>. It is the first match in backtracking
  order. A match that ends at the offset \<open>stop\<close> is refused and the search backtracks:
  this is how the scan asks for a match that is not empty, right after an empty one.
\<close>

fun match_items ::
  "re_item list \<Rightarrow> string \<Rightarrow> nat \<Rightarrow> (nat \<rightharpoonup> nat) \<Rightarrow> (nat \<rightharpoonup> nat \<times> nat) \<Rightarrow> nat option \<Rightarrow>
   (nat \<times> (nat \<rightharpoonup> nat \<times> nat)) option" where
  "match_items [] rest pos starts spans stop =
     (if stop = Some pos then None else Some (pos, spans))"
| "match_items (Atom c # its) rest pos starts spans stop =
     (case rest of
        [] \<Rightarrow> None
      | x # xs \<Rightarrow> if cmatch c x then match_items its xs (Suc pos) starts spans stop else None)"
| "match_items (Rep c lo hi greedy # its) rest pos starts spans stop =
     first_some (\<lambda>k. match_items its (drop k rest) (pos + k) starts spans stop)
       (rep_counts c lo hi greedy rest)"
| "match_items (GOpen g # its) rest pos starts spans stop =
     match_items its rest pos (starts(g \<mapsto> pos)) spans stop"
| "match_items (GClose g # its) rest pos starts spans stop =
     (case starts g of
        None \<Rightarrow> None
      | Some s \<Rightarrow> match_items its rest pos starts (spans(g \<mapsto> (s, pos))) stop)"

text \<open>
  A match object: where the match starts and ends in the text, and the text of each
  group. \<open>group m g\<close> is \<open>m.group(g)\<close> for \<open>g > 0\<close>; a group the pattern does not have
  raises \<open>IndexError\<close>.
\<close>

record match =
  mstart :: nat
  mend :: nat
  mgroups :: "nat \<rightharpoonup> string"

datatype error = IndexError | HTTPError nat | ConnectionError | ReError | NotModelled

definition group :: "match \<Rightarrow> nat \<Rightarrow> error + string" where
  "group m g = (case mgroups m g of None \<Rightarrow> Inl IndexError | Some s \<Rightarrow> Inr s)"

definition mk_match :: "string \<Rightarrow> nat \<Rightarrow> nat \<times> (nat \<rightharpoonup> nat \<times> nat) \<Rightarrow> match" where
  "mk_match txt start r =
     \<lparr>mstart = start, mend = fst r,
      mgroups = (\<lambda>g. case snd r g of
                        None \<Rightarrow> None
                      | Some (a, b) \<Rightarrow> Some (take (b - a) (drop a txt)))\<rparr>"

text \<open>
  \<open>finditer\<close>: the matches from left to right, without overlap. The scan tries every
  offset from the left, the end of the text included. After a match that is not empty it
  goes on where the match ended; after an empty match it asks, at the same offset, for
  a match that is not empty (\<open>must_advance\<close>), and moves one character on when there is
  none. The two branches that return \<open>[]\<close> after a match are never taken: a match
  that is not empty ends inside the text, and under \<open>must_advance\<close> no match is empty.
\<close>

function scan :: "re_item list \<Rightarrow> string \<Rightarrow> string \<Rightarrow> nat \<Rightarrow> bool \<Rightarrow> match list" where
  "scan its txt rest pos must_advance =
     (case match_items its rest pos Map.empty Map.empty (if must_advance then Some pos else None) of
        Some r \<Rightarrow>
          mk_match txt pos r #
          (if pos < fst r then
             (if rest = [] then [] else scan its txt (drop (fst r - pos) rest) (fst r) False)
           else if must_advance then []
           else scan its txt rest pos True)
      | None \<Rightarrow>
          (case rest of [] \<Rightarrow> [] | c # cs \<Rightarrow> scan its txt cs (Suc pos) False))"
  by pat_completeness auto
termination
  by (relation "measure (\<lambda>(its, txt, rest, pos, must_advance).
                  2 * length rest + (if must_advance then 0 else 1))")
     (auto simp: neq_Nil_conv)

declare scan.simps [simp del]

definition finditer :: "re_item list \<Rightarrow> string \<Rightarrow> match list" where
  "finditer its txt = scan its txt txt 0 False"

text \<open>
  \<open>re_compile\<close> reads a pattern of the fragment: literal characters, the dot, an escaped
  punctuation character, \<open>\w\<close>, a class \<open>[...]\<close> or \<open>[^...]\<close> of plain characters,
  the quantifiers \<open>*\<close>, \<open>+\<close>, \<open>?\<close> and \<open>{n}\<close> after one of these, each with an optional
  \<open>?\<close> that makes it lazy, and groups. \<open>BadPattern\<close> is a pattern that \<open>re.compile\<close>
  refuses with \<open>re.error\<close> (a parenthesis without its partner, a backslash at the end);
  \<open>OutsideModel\<close> is every other pattern that is not in the fragment, about which the
  model says nothing.
\<close>

datatype re_failure = BadPattern | OutsideModel

datatype quant = NoQuant | Quant nat "nat option" bool nat | QuantOutside

definition is_digit :: "char \<Rightarrow> bool" where
  "is_digit c \<longleftrightarrow> c \<in> set ''0123456789''"

definition ascii_alnum :: "char \<Rightarrow> bool" where
  "ascii_alnum c \<longleftrightarrow>
     c \<in> set ''0123456789ABCDEFGHIJKLMNOPQRSTUVWXYZabcdefghijklmnopqrstuvwxyz''"

definition digits_value :: "string \<Rightarrow> nat" where
  "digits_value ds = foldl (\<lambda>v d. 10 * v + (of_char d - 48)) 0 ds"

text \<open>
  The quantifier at the head of \<open>cs\<close>, with the number of characters it takes. A second
  quantifier right after the first is outside the fragment, and so is a brace that
  is not \<open>{n}\<close>.
\<close>

definition lazy_suffix :: "nat \<Rightarrow> nat option \<Rightarrow> nat \<Rightarrow> string \<Rightarrow> quant" where
  "lazy_suffix lo hi n cs =
     (case cs of
        [] \<Rightarrow> Quant lo hi True n
      | c # cs' \<Rightarrow>
          if c = CHR ''?''
          then (case cs' of
                  [] \<Rightarrow> Quant lo hi False (Suc n)
                | d # _ \<Rightarrow> if d \<in> set ''*+?{'' then QuantOutside else Quant lo hi False (Suc n))
          else if c \<in> set ''*+{'' then QuantOutside
          else Quant lo hi True n)"

definition parse_quant :: "string \<Rightarrow> quant" where
  "parse_quant cs =
     (case cs of
        [] \<Rightarrow> NoQuant
      | q # cs' \<Rightarrow>
          if q = CHR ''*'' then lazy_suffix 0 None 1 cs'
          else if q = CHR ''+'' then lazy_suffix 1 None 1 cs'
          else if q = CHR ''?'' then lazy_suffix 0 (Some 1) 1 cs'
          else if q = CHR ''{'' then
            (let ds = takeWhile is_digit cs'; after = drop (length ds) cs'
             in if ds \<noteq> [] \<and> prefix ''}'' after
                then lazy_suffix (digits_value ds) (Some (digits_value ds)) (length ds + 2) (tl after)
                else QuantOutside)
          else NoQuant)"

text \<open>
  The class or character that begins with \<open>c\<close>, and how many characters after \<open>c\<close> it
  takes.
\<close>

definition parse_class :: "string \<Rightarrow> re_failure + cset \<times> nat" where
  "parse_class cs =
     (let negated = prefix ''^'' cs;
          body = (if negated then tl cs else cs);
          members = takeWhile (\<lambda>x. x \<noteq> CHR '']'') body
      in if members \<noteq> [] \<and> length members < length body \<and>
            (\<forall>x \<in> set members. x \<notin> set (CHR 0x5C # ''-[^&|~''))
         then Inr (if negated then NoneOf members else OneOf members,
                   length members + (if negated then 2 else 1))
         else Inl OutsideModel)"

definition parse_atom :: "char \<Rightarrow> string \<Rightarrow> re_failure + cset \<times> nat" where
  "parse_atom c cs =
     (if c = CHR 0x5C then
        (case cs of
           [] \<Rightarrow> Inl BadPattern
         | e # _ \<Rightarrow>
             if e = CHR ''w'' then Inr (WordChar, 1)
             else if ascii_alnum e then Inl OutsideModel
             else Inr (Lit e, 1))
      else if c = CHR ''['' then parse_class cs
      else if c = CHR ''.'' then Inr (AnyChar, 0)
      else Inr (Lit c, 0))"

definition cons_item :: "re_item \<Rightarrow> re_failure + re_item list \<Rightarrow> re_failure + re_item list" where
  "cons_item it r = (case r of Inl e \<Rightarrow> Inl e | Inr its \<Rightarrow> Inr (it # its))"

text \<open>
  The pattern is read from the left; \<open>n\<close> is the number of the next group and \<open>opened\<close>
  the groups that are open, the innermost first.
\<close>

function parse_items :: "string \<Rightarrow> nat \<Rightarrow> nat list \<Rightarrow> re_failure + re_item list" where
  "parse_items [] n opened = (if opened = [] then Inr [] else Inl BadPattern)"
| "parse_items (c # cs) n opened =
     (if c = CHR ''('' then
        (if prefix ''?'' cs then Inl OutsideModel
         else cons_item (GOpen n) (parse_items cs (Suc n) (n # opened)))
      else if c = CHR '')'' then
        (case opened of
           [] \<Rightarrow> Inl BadPattern
         | g # opened' \<Rightarrow>
             (case parse_quant cs of
                NoQuant \<Rightarrow> cons_item (GClose g) (parse_items cs n opened')
              | _ \<Rightarrow> Inl OutsideModel))
      else if c \<in> set ''*+?{}^$|]'' then Inl OutsideModel
      else
        (case parse_atom c cs of
           Inl e \<Rightarrow> Inl e
         | Inr (a, k) \<Rightarrow>
             (case parse_quant (drop k cs) of
                NoQuant \<Rightarrow> cons_item (Atom a) (parse_items (drop k cs) n opened)
              | Quant lo hi greedy q \<Rightarrow>
                  cons_item (Rep a lo hi greedy) (parse_items (drop (k + q) cs) n opened)
              | QuantOutside \<Rightarrow> Inl OutsideModel)))"
  by pat_completeness auto
termination
  by (relation "measure (\<lambda>(cs, n, opened). length cs)") auto

definition re_compile :: "string \<Rightarrow> re_failure + re_item list" where
  "re_compile pattern = parse_items pattern 1 []"

section \<open>Paths (\<open>pathlib\<close> on a POSIX system)\<close>

text \<open>
  A path is its root (empty for a relative path, \<open>/\<close>, or \<open>//\<close> for exactly two leading
  slashes) and its components. Reading a string drops the empty components and the
  components \<open>.\<close>; \<open>..\<close> stays. \<open>path_div p s\<close> is \<open>p / s\<close>: a string with a root
  replaces \<open>p\<close>.
\<close>

fun split_slash :: "string \<Rightarrow> string list" where
  "split_slash [] = [[]]"
| "split_slash (c # cs) =
     (if c = CHR ''/'' then [] # split_slash cs
      else (case split_slash cs of [] \<Rightarrow> [[c]] | p # ps \<Rightarrow> (c # p) # ps))"

record path =
  root :: string
  parts :: "string list"

definition path_root :: "string \<Rightarrow> string" where
  "path_root s =
     (if prefix ''//'' s \<and> \<not> prefix ''///'' s then ''//''
      else if prefix ''/'' s then ''/'' else [])"

definition path_parts :: "string \<Rightarrow> string list" where
  "path_parts s = filter (\<lambda>p. p \<noteq> [] \<and> p \<noteq> ''.'') (split_slash s)"

definition path_div :: "path \<Rightarrow> string \<Rightarrow> path" where
  "path_div p s =
     (if path_root s \<noteq> [] then \<lparr>root = path_root s, parts = path_parts s\<rparr>
      else \<lparr>root = root p, parts = parts p @ path_parts s\<rparr>)"

section \<open>Pages, the outside world and \<open>export_doc\<close> (dao.py, lines 24-29; main.py, lines 45-136)\<close>

record PageDetails =
  shelf :: string
  book :: string
  page_title :: string
  page_markdown :: string
  draft :: bool

text \<open>
  What the program does to the world, in the order it does it: the directories it
  asks for, the lines it prints (the text without the colours), the URLs it requests
  and the files it writes, in binary or in text mode. Creating a directory and writing
  a file are taken to succeed. The answer to a request is a status code with a body, or
  no answer at all, and then \<open>requests.get\<close> raises.
\<close>

datatype event =
    MakeDirs path
  | Echo string
  | HttpGet string
  | WriteBinary path string
  | WriteText path string

datatype response = Response nat string | NoResponse

text \<open>\<open>raise_for_status\<close> raises for the status codes from 400 to 599.\<close>

definition raise_for_status :: "nat \<Rightarrow> bool" where
  "raise_for_status status_code \<longleftrightarrow> 400 \<le> status_code \<and> status_code < 600"

text \<open>
  Lines 53-67: the loop over the image matches, which the caller passes in reverse
  order. Every match was found in the text as it was before the loop.
\<close>

fun image_loop ::
  "(string \<Rightarrow> response) \<Rightarrow> path \<Rightarrow> PageDetails \<Rightarrow> match list \<Rightarrow> event list \<Rightarrow>
   error \<times> event list + PageDetails \<times> event list" where
  "image_loop http path_to_book doc [] trace = Inr (doc, trace)"
| "image_loop http path_to_book doc (m # ms) trace =
     (case group m 1 of
        Inl e \<Rightarrow> Inl (e, trace)
      | Inr image_url \<Rightarrow>
     (case group m 2 of
        Inl e \<Rightarrow> Inl (e, trace)
      | Inr image_filename \<Rightarrow>
     (let trace1 = trace @
            [Echo (''Found embedded image in '' @ book doc @ '' => '' @ page_title doc @
                   '': '' @ image_filename),
             HttpGet image_url]
      in case http image_url of
           NoResponse \<Rightarrow> Inl (ConnectionError, trace1)
         | Response status_code content \<Rightarrow>
             if raise_for_status status_code then Inl (HTTPError status_code, trace1)
             else image_loop http path_to_book
                    (doc\<lparr>page_markdown :=
                           take (mstart m) (page_markdown doc) @
                           ''![]('' @ image_filename @ '')'' @
                           drop (mend m + 1) (page_markdown doc)\<rparr>)
                    ms
                    (trace1 @ [WriteBinary (path_div path_to_book image_filename) content]))))"

text \<open>
  Lines 83-94: the loop over the internal links; it prints and sets the flag, and
  does not assign the text.
\<close>

definition snippet :: "string \<Rightarrow> match \<Rightarrow> string" where
  "snippet md internal_link =
     py_slice md (int (mstart internal_link) - 60) (int (mstart internal_link))"

fun link_loop ::
  "PageDetails \<Rightarrow> match list \<Rightarrow> bool \<Rightarrow> event list \<Rightarrow> error \<times> event list + bool \<times> event list" where
  "link_loop doc [] internal_links_found trace = Inr (internal_links_found, trace)"
| "link_loop doc (internal_link # ms) internal_links_found trace =
     (case group internal_link 1 of
        Inl e \<Rightarrow> Inl (e, trace)
      | Inr g1 \<Rightarrow>
     (case group internal_link 2 of
        Inl e \<Rightarrow> Inl (e, trace)
      | Inr g2 \<Rightarrow>
          link_loop doc ms True
            (trace @
             Echo (''>> Internal link found in ['' @ page_title doc @ ''] to ['' @ g1 @
                   '']/['' @ g2 @ '']'') #
             map (\<lambda>snippet_line. Echo (''    '' @ snippet_line))
               (splitlines (snippet (page_markdown doc) internal_link)))))"

definition title_heading :: "PageDetails \<Rightarrow> string" where
  "title_heading doc =
     ''# '' @ (if draft doc then ''DRAFT: '' else []) @ page_title doc @ [NL, NL]"

text \<open>
  \<open>export_doc\<close>: an error comes with the events up to it; a normal return comes with
  the flag, the page as the function leaves it and the events.
\<close>

definition export_doc ::
  "(string \<Rightarrow> response) \<Rightarrow> path \<Rightarrow> PageDetails \<Rightarrow> re_item list \<Rightarrow> re_item list \<Rightarrow> event list \<Rightarrow>
   error \<times> event list + bool \<times> PageDetails \<times> event list" where
  "export_doc http export_path doc image_link_regex internal_link_regex trace =
     (let path_to_book = path_div (path_div export_path (shelf doc)) (book doc)
      in case image_loop http path_to_book doc
                (rev (finditer image_link_regex (page_markdown doc)))
                (trace @ [MakeDirs path_to_book]) of
           Inl e \<Rightarrow> Inl e
         | Inr (doc1, trace1) \<Rightarrow>
             (let doc2 = doc1\<lparr>page_markdown := decrease_header_level (page_markdown doc1)\<rparr>;
                  doc3 = doc2\<lparr>page_markdown := title_heading doc2 @ page_markdown doc2\<rparr>
              in case link_loop doc3 (finditer internal_link_regex (page_markdown doc3))
                        False trace1 of
                   Inl e \<Rightarrow> Inl e
                 | Inr (internal_links_found, trace2) \<Rightarrow>
                     (let safe_page_title = py_replace ''/'' ''-'' (page_title doc3)
                      in Inr (internal_links_found, doc3,
                              trace2 @
                              [WriteText (path_div path_to_book (safe_page_title @ ''.md''))
                                 (page_markdown doc3)]))))"

text \<open>
  \<open>main\<close>, lines 114-136. The pages come from the database, outside the model, and are
  an argument here. The loop stops at the first page whose export raises.
\<close>

definition image_link_pattern :: "string \<Rightarrow> string" where
  "image_link_pattern bookstack_url_root =
     py_replace ''__BASE_URL__'' (rstrip ''/'' bookstack_url_root) IMAGE_LINK_REGEX_TEMPLATE"

definition internal_link_pattern :: "string \<Rightarrow> string" where
  "internal_link_pattern bookstack_url_root =
     py_replace ''__BASE_URL__'' (rstrip ''/'' bookstack_url_root) INTERNAL_LINK_REGEX_TEMPLATE"

fun export_all ::
  "(string \<Rightarrow> response) \<Rightarrow> path \<Rightarrow> re_item list \<Rightarrow> re_item list \<Rightarrow> PageDetails list \<Rightarrow>
   bool \<Rightarrow> event list \<Rightarrow> error \<times> event list + bool \<times> event list" where
  "export_all http export_path image_link_regex internal_link_regex [] manual_required trace =
     Inr (manual_required, trace)"
| "export_all http export_path image_link_regex internal_link_regex (doc # documents)
     manual_required trace =
     (case export_doc http export_path doc image_link_regex internal_link_regex trace of
        Inl e \<Rightarrow> Inl e
      | Inr (found, doc', trace') \<Rightarrow>
          export_all http export_path image_link_regex internal_link_regex documents
            (found \<or> manual_required) trace')"

definition main ::
  "(string \<Rightarrow> response) \<Rightarrow> string \<Rightarrow> path \<Rightarrow> PageDetails list \<Rightarrow>
   error \<times> event list + event list" where
  "main http bookstack_url_root export_path documents =
     (case re_compile (image_link_pattern bookstack_url_root) of
        Inl BadPattern \<Rightarrow> Inl (ReError, [])
      | Inl OutsideModel \<Rightarrow> Inl (NotModelled, [])
      | Inr image_link_regex \<Rightarrow>
     (case re_compile (internal_link_pattern bookstack_url_root) of
        Inl BadPattern \<Rightarrow> Inl (ReError, [])
      | Inl OutsideModel \<Rightarrow> Inl (NotModelled, [])
      | Inr internal_link_regex \<Rightarrow>
     (case export_all http export_path image_link_regex internal_link_regex documents False
             [Echo ''> Connecting to DB'', Echo ''> Retrieving all documents from db'',
              Echo ''> Exporting all documents as markdown''] of
        Inl e \<Rightarrow> Inl e
      | Inr (manual_required, trace) \<Rightarrow>
          Inr (if manual_required
               then trace @ [Echo (''Manual cleanup required. See '' @ [CHR 0x27] @ ''>>'' @
                                   [CHR 0x27] @ '' messages above.'')]
               else trace))))"


fun is_write_text :: "event \<Rightarrow> bool" where
  "is_write_text (WriteText p content) = True"
| "is_write_text _ = False"

definition compiled :: "string \<Rightarrow> re_item list" where
  "compiled pattern = (case re_compile pattern of Inl e \<Rightarrow> [] | Inr its \<Rightarrow> its)"

text \<open>
  \<open>has_group its g\<close>: the pattern closes a group \<open>g\<close> that it has opened, so that every
  match has this group.
\<close>

fun sets_group :: "nat \<Rightarrow> re_item list \<Rightarrow> bool \<Rightarrow> bool" where
  "sets_group g [] opened = False"
| "sets_group g (GOpen h # its) opened = sets_group g its (opened \<or> h = g)"
| "sets_group g (GClose h # its) opened = ((h = g \<and> opened) \<or> sets_group g its opened)"
| "sets_group g (Atom c # its) opened = sets_group g its opened"
| "sets_group g (Rep c lo hi greedy # its) opened = sets_group g its opened"

definition has_group :: "re_item list \<Rightarrow> nat \<Rightarrow> bool" where
  "has_group its g = sets_group g its False"

text \<open>\<open>match_at its txt i\<close>: the pattern matches the text at the offset \<open>i\<close>.\<close>

definition match_at :: "re_item list \<Rightarrow> string \<Rightarrow> nat \<Rightarrow> bool" where
  "match_at its txt i \<longleftrightarrow> match_items its (drop i txt) i Map.empty Map.empty None \<noteq> None"

text \<open>A server that answers every request with the same status code and body.\<close>

definition serve :: "nat \<Rightarrow> string \<Rightarrow> string \<Rightarrow> response" where
  "serve status_code content url = Response status_code content"

text \<open>
  A base URL whose characters are not operators of the pattern language, but for the
  dot: what each of its characters compiles to, and the same URL with another character
  in the place of every dot.
\<close>

definition url_char :: "char \<Rightarrow> bool" where
  "url_char c \<longleftrightarrow> c \<notin> set (CHR 0x5C # ''^$*+?{}[]|()'')"

definition atom_of :: "char \<Rightarrow> re_item" where
  "atom_of c = (if c = CHR ''.'' then Atom AnyChar else Atom (Lit c))"

definition undot :: "char \<Rightarrow> char" where
  "undot c = (if c = CHR ''.'' then CHR ''X'' else c)"

definition link_text :: "string \<Rightarrow> string" where
  "link_text b = map undot b @ ''/books/a/page/b)''"

text \<open>
  The text for the image pattern has two dots of its own, before the two file
  extensions. Before each stands a parenthesis, which no such base URL holds, and
  after each a letter that differs from the character after the first dot of the base
  URL, so that the base URL cannot lie across either dot.
\<close>

definition after_dot :: "string \<Rightarrow> string" where
  "after_dot b = drop 1 (dropWhile (\<lambda>c. c \<noteq> CHR ''.'') b)"

definition first_word :: "string \<Rightarrow> char" where
  "first_word b = (if prefix ''p'' (after_dot b) then CHR ''q'' else CHR ''p'')"

definition image_text :: "string \<Rightarrow> string" where
  "image_text b =
     ''[![a]('' @ map undot b @ ''/uploads/(.'' @ first_word b # ''ng)]('' @
     map undot b @ ''/uploads/d/(.'' @ first_word b # ''ng)''"

text \<open>
  The items that the fixed parts of the two templates compile to: what follows the base
  URL in the internal-link pattern, and what stands before, between and after the two
  base URLs in the image pattern.
\<close>

definition link_tail :: "re_item list" where
  "link_tail =
     [Atom (Lit CHR ''/''), Atom (Lit CHR ''b''), Atom (Lit CHR ''o''), Atom (Lit CHR ''o''),
      Atom (Lit CHR ''k''), Atom (Lit CHR ''s''), Atom (Lit CHR ''/''),
      GOpen 1, Rep AnyChar 1 None False, GClose 1,
      Atom (Lit CHR ''/''), Atom (Lit CHR ''p''), Atom (Lit CHR ''a''), Atom (Lit CHR ''g''),
      Atom (Lit CHR ''e''), Atom (Lit CHR ''/''),
      GOpen 2, Rep AnyChar 1 None False, GClose 2, Atom (Lit CHR '')'')]"

definition image_head :: "re_item list" where
  "image_head =
     [Atom (Lit CHR ''[''), Atom (Lit CHR ''!''), Atom (Lit CHR ''[''),
      Rep AnyChar 1 None True, Atom (Lit CHR '']''), Atom (Lit CHR ''('')]"

definition image_middle :: "re_item list" where
  "image_middle =
     [Atom (Lit CHR ''/''), Atom (Lit CHR ''u''), Atom (Lit CHR ''p''), Atom (Lit CHR ''l''),
      Atom (Lit CHR ''o''), Atom (Lit CHR ''a''), Atom (Lit CHR ''d''), Atom (Lit CHR ''s''),
      Atom (Lit CHR ''/''), Rep AnyChar 0 None False, Atom (Lit CHR ''.''),
      Rep WordChar 3 (Some 3) True, Atom (Lit CHR '')''), Atom (Lit CHR '']''),
      Atom (Lit CHR ''(''), GOpen 1]"

definition image_tail :: "re_item list" where
  "image_tail =
     [Atom (Lit CHR ''/''), Atom (Lit CHR ''u''), Atom (Lit CHR ''p''), Atom (Lit CHR ''l''),
      Atom (Lit CHR ''o''), Atom (Lit CHR ''a''), Atom (Lit CHR ''d''), Atom (Lit CHR ''s''),
      Atom (Lit CHR ''/''), Rep AnyChar 0 None False, Atom (Lit CHR ''/''), GOpen 2,
      Rep (NoneOf ''/'') 0 None False, Atom (Lit CHR ''.''), Rep WordChar 3 (Some 3) True,
      GClose 2, GClose 1, Atom (Lit CHR '')'')]"

section \<open>Lines\<close>

lemma text_lines_nonempty: "text_lines s \<noteq> []"
  by (cases s) (auto split: list.splits)

lemma join_text_lines: "join_lines (text_lines s) = s"
proof (induction s)
  case Nil
  show ?case by simp
next
  case (Cons c cs)
  obtain l ls where split: "text_lines cs = l # ls"
    using text_lines_nonempty [of cs] by (cases "text_lines cs") auto
  show ?case
  proof (cases "c = NL")
    case True
    with Cons split show ?thesis by simp
  next
    case False
    with Cons split show ?thesis by (cases ls) auto
  qed
qed

lemma text_lines_no_newline: "l \<in> set (text_lines s) \<Longrightarrow> NL \<notin> set l"
proof (induction s arbitrary: l)
  case Nil
  then show ?case by simp
next
  case (Cons c cs)
  obtain k ks where split: "text_lines cs = k # ks"
    using text_lines_nonempty [of cs] by (cases "text_lines cs") auto
  with Cons show ?case by (auto split: if_splits)
qed

lemma text_lines_append_line:
  "NL \<notin> set l \<Longrightarrow> text_lines (l @ NL # s) = l # text_lines s"
  by (induction l) auto

lemma text_lines_single: "NL \<notin> set l \<Longrightarrow> text_lines l = [l]"
  by (induction l) auto

lemma text_lines_join:
  "ls \<noteq> [] \<Longrightarrow> \<forall>l \<in> set ls. NL \<notin> set l \<Longrightarrow> text_lines (join_lines ls) = ls"
proof (induction ls rule: join_lines.induct)
  case 1
  then show ?case by simp
next
  case (2 l)
  then show ?case by (simp add: text_lines_single)
next
  case (3 l k ks)
  then show ?case by (simp add: text_lines_append_line)
qed

section \<open>Headings of a line\<close>

lemma heading_level_header_text:
  "0 < k \<Longrightarrow> heading_level (header_text k @ r) = Some k"
  by (simp add: heading_level_def header_text_def takeWhile_append)

lemma takeWhile_hash_replicate:
  "length (takeWhile (\<lambda>c. c = a) l) = k \<Longrightarrow> take k l = replicate k a"
proof (induction l arbitrary: k)
  case Nil
  then show ?case by simp
next
  case (Cons c cs)
  then show ?case by (cases k) (auto split: if_splits)
qed

lemma prefix_header_text_iff:
  assumes "0 < k"
  shows "prefix (header_text k) l \<longleftrightarrow> heading_level l = Some k"
proof
  assume "prefix (header_text k) l"
  then obtain r where "l = header_text k @ r" by (auto simp: prefix_def)
  with assms show "heading_level l = Some k" by (simp add: heading_level_header_text)
next
  assume h: "heading_level l = Some k"
  let ?n = "length (takeWhile (\<lambda>c. c = CHR ''#'') l)"
  from h have n: "?n = k" and sp: "prefix '' '' (drop ?n l)"
    by (auto simp: heading_level_def Let_def split: if_splits)
  have tk: "take k l = replicate k CHR ''#''"
    using n by (rule takeWhile_hash_replicate)
  from sp n obtain r where dr: "drop k l = '' '' @ r" by (auto simp: prefix_def)
  have "l = take k l @ drop k l" by simp
  then have "l = header_text k @ r" unfolding tk dr by (simp add: header_text_def)
  then show "prefix (header_text k) l" by simp
qed

lemma header_text_no_newline: "NL \<notin> set (header_text k)"
  by (auto simp: header_text_def NL_def)

lemma line_sub_heading:
  "0 < k \<Longrightarrow> line_sub k r l = (if heading_level l = Some k then r @ drop (Suc k) l else l)"
  by (simp add: line_sub_def prefix_header_text_iff)

lemma line_sub_no_newline:
  "NL \<notin> set r \<Longrightarrow> NL \<notin> set l \<Longrightarrow> NL \<notin> set (line_sub k r l)"
  by (auto simp: line_sub_def dest: in_set_dropD)

lemma text_lines_header_sub:
  assumes "NL \<notin> set r"
  shows "text_lines (header_sub k r md) = map (line_sub k r) (text_lines md)"
proof -
  have "\<forall>l \<in> set (map (line_sub k r) (text_lines md)). NL \<notin> set l"
    using assms text_lines_no_newline line_sub_no_newline by auto
  moreover have "map (line_sub k r) (text_lines md) \<noteq> []"
    by (simp add: text_lines_nonempty)
  ultimately show ?thesis
    unfolding header_sub_def by (rule text_lines_join [rotated])
qed

lemma foldl_header_sub:
  "\<forall>p \<in> set rs. NL \<notin> set (snd p) \<Longrightarrow>
   foldl (\<lambda>md (k, r). header_sub k r md) md rs =
   join_lines (map (\<lambda>l. foldl (\<lambda>l (k, r). line_sub k r l) l rs) (text_lines md))"
proof (induction rs arbitrary: md)
  case Nil
  show ?case by (simp add: join_text_lines)
next
  case (Cons p rs)
  obtain k r where p: "p = (k, r)" by (cases p)
  with Cons.prems have r: "NL \<notin> set r" by simp
  from Cons.prems have rest: "\<forall>p \<in> set rs. NL \<notin> set (snd p)" by simp
  show ?case
    by (simp add: p Cons.IH [OF rest] text_lines_header_sub [OF r] comp_def)
qed

lemma line_fold:
  assumes "0 < t" "\<forall>x \<in> set xs. t \<le> x" "sorted_wrt (<) xs"
  shows "foldl (\<lambda>l (k, r). line_sub k r l) l (map (\<lambda>x. (x, header_text (x - t + 1))) xs) =
         (case heading_level l of
            None \<Rightarrow> l
          | Some L \<Rightarrow> if L \<in> set xs then header_text (L - t + 1) @ drop (Suc L) l else l)"
  using assms(2,3)
proof (induction xs arbitrary: l)
  case Nil
  show ?case by (simp split: option.splits)
next
  case (Cons x xs)
  from Cons.prems have ge: "\<forall>y \<in> set xs. t \<le> y" and srt: "sorted_wrt (<) xs"
    and above: "\<forall>y \<in> set xs. x < y" and tx: "t \<le> x"
    by auto
  from tx assms(1) have x0: "0 < x" by simp
  note IH = Cons.IH [OF ge srt]
  show ?case
  proof (cases "heading_level l = Some x")
    case True
    let ?l' = "header_text (x - t + 1) @ drop (Suc x) l"
    have lvl: "heading_level ?l' = Some (x - t + 1)"
      by (simp add: heading_level_header_text)
    have notin: "x - t + 1 \<notin> set xs"
      using above assms(1) tx by fastforce
    have "foldl (\<lambda>l (k, r). line_sub k r l) l (map (\<lambda>x. (x, header_text (x - t + 1))) (x # xs)) =
          foldl (\<lambda>l (k, r). line_sub k r l) ?l' (map (\<lambda>x. (x, header_text (x - t + 1))) xs)"
      using True x0 by (simp add: line_sub_heading)
    also have "\<dots> = ?l'"
      unfolding IH using lvl notin by simp
    finally show ?thesis
      using True by simp
  next
    case False
    have "foldl (\<lambda>l (k, r). line_sub k r l) l (map (\<lambda>x. (x, header_text (x - t + 1))) (x # xs)) =
          foldl (\<lambda>l (k, r). line_sub k r l) l (map (\<lambda>x. (x, header_text (x - t + 1))) xs)"
      using False x0 by (simp add: line_sub_heading)
    also note IH
    finally show ?thesis
      using False by (auto split: option.splits)
  qed
qed

lemma line_fold_replacements:
  assumes "0 < t"
  shows "foldl (\<lambda>l (k, r). line_sub k r l) l (replacements t) = shift_line t l"
proof -
  have "foldl (\<lambda>l (k, r). line_sub k r l) l (replacements t) =
        (case heading_level l of
            None \<Rightarrow> l
          | Some L \<Rightarrow> if L \<in> set [t..<LOWEST_HEADER_LEVEL]
                      then header_text (L - t + 1) @ drop (Suc L) l else l)"
    unfolding replacements_def
    by (rule line_fold [OF assms]) (auto simp: sorted_wrt_upt)
  then show ?thesis by (simp add: shift_line_def split: option.splits)
qed

lemma foldl_replacements:
  assumes "0 < t"
  shows "foldl (\<lambda>md (k, r). header_sub k r md) md (replacements t) =
         join_lines (map (shift_line t) (text_lines md))"
proof -
  have "\<forall>p \<in> set (replacements t). NL \<notin> set (snd p)"
    by (auto simp: replacements_def header_text_no_newline)
  then show ?thesis
    by (simp add: foldl_header_sub line_fold_replacements [OF assms])
qed

lemma spec_rewrite_line_shift:
  assumes "0 < t"
  shows "spec_rewrite_line t l = shift_line t l"
proof (cases "find (\<lambda>L. prefix (header_text L) l) [t..<LOWEST_HEADER_LEVEL]")
  case None
  then have "\<forall>L. t \<le> L \<and> L < LOWEST_HEADER_LEVEL \<longrightarrow> heading_level l \<noteq> Some L"
    using assms by (auto simp: find_None_iff prefix_header_text_iff)
  with None show ?thesis
    by (auto simp: spec_rewrite_line_def shift_line_def split: option.splits)
next
  case (Some L)
  then have "L \<in> set [t..<LOWEST_HEADER_LEVEL]" and "prefix (header_text L) l"
    by (auto simp: find_Some_iff)
  then have "t \<le> L" "L < LOWEST_HEADER_LEVEL" "heading_level l = Some L"
    using assms by (auto simp: prefix_header_text_iff)
  with Some show ?thesis
    by (simp add: spec_rewrite_line_def shift_line_def spec_level_map_def)
qed

section \<open>The top level and the rewrite\<close>

lemma header_search_iff:
  "0 < k \<Longrightarrow> header_search k md \<longleftrightarrow> (\<exists>l \<in> set (text_lines md). heading_level l = Some k)"
  by (simp add: header_search_def list_ex_iff prefix_header_text_iff)

lemma find_upt_Some:
  "find P [a..<b] = Some t \<longleftrightarrow> a \<le> t \<and> t < b \<and> P t \<and> (\<forall>k. a \<le> k \<and> k < t \<longrightarrow> \<not> P k)"
proof (induction "b - a" arbitrary: a)
  case 0
  then show ?case by auto
next
  case (Suc n)
  then have ab: "a < b" and n: "n = b - Suc a" by auto
  have split: "[a..<b] = a # [Suc a..<b]" using ab by (simp add: upt_rec)
  show ?case
  proof (cases "P a")
    case True
    then show ?thesis using ab split by (auto simp: not_less dest: le_neq_implies_less)
  next
    case False
    have "find P [a..<b] = find P [Suc a..<b]" using False split by simp
    also have "\<dots> = Some t \<longleftrightarrow>
        Suc a \<le> t \<and> t < b \<and> P t \<and> (\<forall>k. Suc a \<le> k \<and> k < t \<longrightarrow> \<not> P k)"
      by (rule Suc.hyps(1) [OF n])
    also have "\<dots> \<longleftrightarrow> a \<le> t \<and> t < b \<and> P t \<and> (\<forall>k. a \<le> k \<and> k < t \<longrightarrow> \<not> P k)"
      using False by (metis Suc_leI le_neq_implies_less Suc_leD)
    finally show ?thesis .
  qed
qed

lemma get_top_level_header_Some:
  "get_top_level_header md = Some t \<longleftrightarrow>
     1 \<le> t \<and> t < LOWEST_HEADER_LEVEL \<and> header_search t md \<and>
     (\<forall>k. 1 \<le> k \<and> k < t \<longrightarrow> \<not> header_search k md)"
  unfolding get_top_level_header_def by (rule find_upt_Some)

lemma get_top_level_header_None:
  "get_top_level_header md = None \<longleftrightarrow>
     (\<forall>k. 1 \<le> k \<and> k < LOWEST_HEADER_LEVEL \<longrightarrow> \<not> header_search k md)"
  unfolding get_top_level_header_def by (auto simp: find_None_iff)

lemma shift_line_one: "shift_line (Suc 0) l = l"
proof (cases "heading_level l")
  case None
  then show ?thesis by (simp add: shift_line_def)
next
  case (Some L)
  then have "0 < L" by (auto simp: heading_level_def Let_def split: if_splits)
  with Some have "prefix (header_text L) l" by (simp add: prefix_header_text_iff)
  then obtain r where l: "l = header_text L @ r" by (auto simp: prefix_def)
  have "length (header_text L) = Suc L" by (simp add: header_text_def)
  then have "drop (Suc L) l = r" using l by simp
  then have "header_text L @ drop (Suc L) l = l" using l by simp
  with Some show ?thesis by (simp add: shift_line_def)
qed

lemma decrease_header_level_lines:
  assumes "get_top_level_header md = Some t"
  shows "decrease_header_level md = join_lines (map (shift_line t) (text_lines md))"
proof (cases "t = 1")
  case True
  have "map (shift_line (Suc 0)) (text_lines md) = text_lines md"
    by (rule map_idI) (rule shift_line_one)
  then have "join_lines (map (shift_line t) (text_lines md)) = md"
    using True by (simp add: join_text_lines)
  moreover have "decrease_header_level md = md"
    using assms True by (simp add: decrease_header_level_def)
  ultimately show ?thesis by simp
next
  case False
  from assms have "0 < t" by (simp add: get_top_level_header_Some)
  with assms False show ?thesis
    by (simp add: decrease_header_level_def foldl_replacements)
qed

lemma decrease_header_level_None:
  "get_top_level_header md = None \<Longrightarrow> decrease_header_level md = md"
  by (simp add: decrease_header_level_def)

lemma heading_level_shift_line:
  assumes "0 < t"
  shows "heading_level (shift_line t l) =
         map_option (\<lambda>L. if t \<le> L \<and> L < LOWEST_HEADER_LEVEL then L - t + 1 else L)
           (heading_level l)"
  by (cases "heading_level l") (auto simp: shift_line_def heading_level_header_text)

lemma shift_line_no_newline: "NL \<notin> set l \<Longrightarrow> NL \<notin> set (shift_line t l)"
  using header_text_no_newline
  by (auto simp: shift_line_def split: option.splits dest: in_set_dropD)

lemma text_lines_decrease:
  assumes "get_top_level_header md = Some t"
  shows "text_lines (decrease_header_level md) = map (shift_line t) (text_lines md)"
proof -
  have "\<forall>l \<in> set (map (shift_line t) (text_lines md)). NL \<notin> set l"
    using text_lines_no_newline shift_line_no_newline by auto
  moreover have "map (shift_line t) (text_lines md) \<noteq> []"
    by (simp add: text_lines_nonempty)
  ultimately show ?thesis
    unfolding decrease_header_level_lines [OF assms] by (rule text_lines_join [rotated])
qed

lemma get_top_after_decrease:
  assumes "get_top_level_header md = Some t"
  shows "get_top_level_header (decrease_header_level md) = Some 1"
proof -
  from assms have t: "0 < t" "t < LOWEST_HEADER_LEVEL" and hs: "header_search t md"
    by (auto simp: get_top_level_header_Some)
  from hs t obtain l where l: "l \<in> set (text_lines md)" "heading_level l = Some t"
    by (auto simp: header_search_iff)
  have "heading_level (shift_line t l) = Some 1"
    using l t by (simp add: heading_level_shift_line)
  moreover have "shift_line t l \<in> set (text_lines (decrease_header_level md))"
    using l by (simp add: text_lines_decrease [OF assms])
  ultimately have "header_search 1 (decrease_header_level md)"
    by (auto simp: header_search_iff)
  then show ?thesis
    by (simp add: get_top_level_header_Some LOWEST_HEADER_LEVEL_def)
qed

lemma decrease_header_level_top_one:
  "get_top_level_header md = Some 1 \<Longrightarrow> decrease_header_level md = md"
  by (simp add: decrease_header_level_def)

lemma decrease_idem: "decrease_header_level (decrease_header_level md) = decrease_header_level md"
proof (cases "get_top_level_header md")
  case None
  then show ?thesis by (simp add: decrease_header_level_None)
next
  case (Some t)
  then show ?thesis
    by (simp add: decrease_header_level_top_one get_top_after_decrease)
qed

lemma heading_level_pos: "heading_level l = Some a \<Longrightarrow> 0 < a"
  by (auto simp: heading_level_def Let_def split: if_splits)

lemma shifted_order:
  assumes t: "0 < t"
    and la: "ha = None \<or> (\<exists>a. ha = Some a \<and> t \<le> a)"
    and lb: "hb = None \<or> (\<exists>b. hb = Some b \<and> t \<le> b)"
  shows "same_depth_order ha hb
           (map_option (\<lambda>L. if t \<le> L \<and> L < LOWEST_HEADER_LEVEL then L - t + 1 else L) ha)
           (map_option (\<lambda>L. if t \<le> L \<and> L < LOWEST_HEADER_LEVEL then L - t + 1 else L) hb)"
proof (cases ha)
  case None
  then show ?thesis by simp
next
  case a: (Some a)
  show ?thesis
  proof (cases hb)
    case None
    with a show ?thesis by simp
  next
    case b: (Some b)
    from la a have "t \<le> a" by simp
    moreover from lb b have "t \<le> b" by simp
    ultimately show ?thesis using a b t by (auto simp: LOWEST_HEADER_LEVEL_def)
  qed
qed

lemma decrease_depth_order:
  assumes top: "get_top_level_header md = Some t"
    and i: "i < length (text_lines md)" and j: "j < length (text_lines md)"
  shows "same_depth_order (heading_level (text_lines md ! i)) (heading_level (text_lines md ! j))
           (heading_level (text_lines (decrease_header_level md) ! i))
           (heading_level (text_lines (decrease_header_level md) ! j))"
proof -
  from top have t: "0 < t" and low: "\<forall>k. 1 \<le> k \<and> k < t \<longrightarrow> \<not> header_search k md"
    by (auto simp: get_top_level_header_Some)
  have ge: "heading_level (text_lines md ! n) = None \<or>
            (\<exists>a. heading_level (text_lines md ! n) = Some a \<and> t \<le> a)"
    if n: "n < length (text_lines md)" for n
  proof (cases "heading_level (text_lines md ! n)")
    case None
    then show ?thesis by simp
  next
    case (Some a)
    then have a0: "0 < a" by (rule heading_level_pos)
    have "text_lines md ! n \<in> set (text_lines md)" using n by simp
    with Some a0 have "header_search a md" by (auto simp: header_search_iff)
    with low a0 have "t \<le> a" by (metis One_nat_def Suc_leI not_le)
    with Some show ?thesis by simp
  qed
  show ?thesis
    using shifted_order [OF t ge [OF i] ge [OF j]] i j
    by (simp add: text_lines_decrease [OF top] heading_level_shift_line [OF t])
qed

lemma deep_heading_kept:
  assumes "i < length (text_lines md)" "heading_level (text_lines md ! i) = Some n"
    "LOWEST_HEADER_LEVEL \<le> n"
  shows "text_lines (decrease_header_level md) ! i = text_lines md ! i"
proof (cases "get_top_level_header md")
  case None
  then show ?thesis by (simp add: decrease_header_level_None)
next
  case (Some t)
  have "shift_line t (text_lines md ! i) = text_lines md ! i"
    using assms(2,3) by (simp add: shift_line_def)
  then show ?thesis using assms(1) by (simp add: text_lines_decrease [OF Some])
qed

lemma take_replacements:
  "t + n \<le> LOWEST_HEADER_LEVEL \<Longrightarrow>
   take n (replacements t) = map (\<lambda>x. (x, header_text (x - t + 1))) [t..<t + n]"
  by (simp add: replacements_def take_map)

lemma text_lines_text_after:
  assumes t: "0 < t" and n: "t + n \<le> LOWEST_HEADER_LEVEL"
  shows "text_lines (text_after n t md) =
         map (\<lambda>l. case heading_level l of
                     None \<Rightarrow> l
                   | Some L \<Rightarrow> if L \<in> set [t..<t + n]
                               then header_text (L - t + 1) @ drop (Suc L) l else l)
           (text_lines md)"
    (is "_ = map ?f _")
proof -
  let ?rs = "map (\<lambda>x. (x, header_text (x - t + 1))) [t..<t + n]"
  have nl: "\<forall>p \<in> set ?rs. NL \<notin> set (snd p)"
    by (auto simp: header_text_no_newline)
  have line: "foldl (\<lambda>l (k, r). line_sub k r l) l ?rs = ?f l" for l
    by (rule line_fold [OF t]) (auto simp: sorted_wrt_upt)
  have eq: "text_after n t md = join_lines (map ?f (text_lines md))"
    unfolding text_after_def take_replacements [OF n] foldl_header_sub [OF nl] line ..
  have "\<forall>l \<in> set (map ?f (text_lines md)). NL \<notin> set l"
    using text_lines_no_newline header_text_no_newline
    by (auto split: option.splits dest: in_set_dropD)
  moreover have "map ?f (text_lines md) \<noteq> []"
    by (simp add: text_lines_nonempty)
  ultimately show ?thesis
    unfolding eq by (rule text_lines_join [rotated])
qed

lemma rewritten_line_not_matched_again:
  assumes t: "0 < t" and n: "n < length (replacements t)"
    and i: "i < length (text_lines md)"
    and changed: "text_lines (text_after n t md) ! i \<noteq> text_lines md ! i"
  shows "\<not> prefix (header_text (fst (replacements t ! n))) (text_lines (text_after n t md) ! i)"
proof -
  from n have n': "t + n < LOWEST_HEADER_LEVEL" by (simp add: replacements_def)
  then have n'': "t + n \<le> LOWEST_HEADER_LEVEL" by simp
  have "[t..<LOWEST_HEADER_LEVEL] ! n = t + n"
    using n' by (intro nth_upt)
  then have lvl: "fst (replacements t ! n) = t + n"
    using n' by (simp add: replacements_def)
  let ?l = "text_lines md ! i"
  let ?c = "text_lines (text_after n t md) ! i"
  have c: "?c = (case heading_level ?l of
                     None \<Rightarrow> ?l
                   | Some L \<Rightarrow> if L \<in> set [t..<t + n]
                               then header_text (L - t + 1) @ drop (Suc L) ?l else ?l)"
    using i by (simp add: text_lines_text_after [OF t n''])
  from changed c obtain L where L: "heading_level ?l = Some L" "t \<le> L" "L < t + n"
    and c': "?c = header_text (L - t + 1) @ drop (Suc L) ?l"
    by (cases "heading_level ?l") (auto split: if_splits)
  have "heading_level ?c = Some (L - t + 1)"
    unfolding c' by (simp add: heading_level_header_text)
  moreover have "L - t + 1 \<noteq> t + n" using L t by simp
  ultimately have "heading_level ?c \<noteq> Some (t + n)" by simp
  moreover have "0 < t + n" using t by simp
  ultimately show ?thesis
    unfolding lvl by (simp add: prefix_header_text_iff)
qed

lemma decrease_is_one_pass:
  assumes "get_top_level_header md = Some t"
  shows "decrease_header_level md = spec_rewrite_one_pass t md"
proof -
  from assms have t: "0 < t" by (simp add: get_top_level_header_Some)
  have "map (shift_line t) (text_lines md) = map (spec_rewrite_line t) (text_lines md)"
    by (simp add: spec_rewrite_line_shift [OF t])
  then show ?thesis
    unfolding decrease_header_level_lines [OF assms] spec_rewrite_one_pass_def by (rule arg_cong)
qed

section \<open>Matches and their groups\<close>

lemma first_some_Some:
  "first_some f xs = Some y \<Longrightarrow> \<exists>x \<in> set xs. f x = Some y"
  by (induction xs) (auto split: option.splits)

lemma first_some_None:
  "first_some f xs = None \<longleftrightarrow> (\<forall>x \<in> set xs. f x = None)"
  by (induction xs) (auto split: option.splits)

lemma match_items_sets_group:
  "sets_group g its (starts g \<noteq> None) \<or> spans g \<noteq> None \<Longrightarrow>
   match_items its rest pos starts spans stop = Some (e, sp') \<Longrightarrow> sp' g \<noteq> None"
proof (induction its arbitrary: rest pos starts spans)
  case Nil
  then show ?case by (auto split: if_splits)
next
  case (Cons it its)
  show ?case
  proof (cases it)
    case (Atom c)
    with Cons.prems obtain x xs where "rest = x # xs"
      "match_items its xs (Suc pos) starts spans stop = Some (e, sp')"
      by (auto split: list.splits if_splits)
    with Cons.IH [of starts spans xs "Suc pos"] Cons.prems(1) Atom show ?thesis by auto
  next
    case (Rep c lo hi greedy)
    with Cons.prems(2) obtain k where
      "match_items its (drop k rest) (pos + k) starts spans stop = Some (e, sp')"
      by (auto dest: first_some_Some)
    with Cons.IH [of starts spans "drop k rest" "pos + k"] Cons.prems(1) Rep show ?thesis by auto
  next
    case (GOpen h)
    with Cons.prems have m: "match_items its rest pos (starts(h \<mapsto> pos)) spans stop = Some (e, sp')"
      by simp
    from Cons.prems(1) GOpen
    have "sets_group g its ((starts(h \<mapsto> pos)) g \<noteq> None) \<or> spans g \<noteq> None"
      by (cases "h = g") auto
    from Cons.IH [OF this m] show ?thesis .
  next
    case (GClose h)
    with Cons.prems(2) obtain s where s: "starts h = Some s"
      and m: "match_items its rest pos starts (spans(h \<mapsto> (s, pos))) stop = Some (e, sp')"
      by (auto split: option.splits)
    from Cons.prems(1) GClose
    have "sets_group g its (starts g \<noteq> None) \<or> (spans(h \<mapsto> (s, pos))) g \<noteq> None"
      by (cases "h = g") auto
    from Cons.IH [OF this m] show ?thesis .
  qed
qed

lemma mk_match_group:
  "snd r g \<noteq> None \<Longrightarrow> \<exists>s. group (mk_match txt pos r) g = Inr s"
  by (auto simp: group_def mk_match_def split: option.splits)

lemma scan_groups:
  "has_group its g \<Longrightarrow> m \<in> set (scan its tx rest pos must_advance) \<Longrightarrow>
   \<exists>s. group m g = Inr s"
proof (induction its tx rest pos must_advance rule: scan.induct)
  case (1 its tx rest pos must_advance)
  let ?stop = "if must_advance then Some pos else None"
  show ?case
  proof (cases "match_items its rest pos Map.empty Map.empty ?stop")
    case None
    then have unfold: "scan its tx rest pos must_advance =
        (case rest of [] \<Rightarrow> [] | c # cs \<Rightarrow> scan its tx cs (Suc pos) False)"
      by (subst scan.simps) simp
    with "1.prems"(2) obtain c cs where rest: "rest = c # cs"
      and m: "m \<in> set (scan its tx cs (Suc pos) False)"
      by (cases rest) auto
    from None rest "1.prems"(1) m "1.IH" show ?thesis by blast
  next
    case (Some r)
    obtain e sp where r: "r = (e, sp)" by (cases r)
    from "1.prems"(1) have "sets_group g its (Map.empty g \<noteq> None) \<or> Map.empty g \<noteq> None"
      by (simp add: has_group_def)
    moreover from Some r
    have "match_items its rest pos Map.empty Map.empty ?stop = Some (e, sp)" by simp
    ultimately have "sp g \<noteq> None" by (rule match_items_sets_group)
    then have here: "\<exists>s. group (mk_match tx pos r) g = Inr s"
      using r by (intro mk_match_group) simp
    have unfold: "scan its tx rest pos must_advance =
          mk_match tx pos r #
          (if pos < fst r then
             (if rest = [] then [] else scan its tx (drop (fst r - pos) rest) (fst r) False)
           else if must_advance then []
           else scan its tx rest pos True)"
      using Some by (subst scan.simps) simp
    from "1.prems"(2)
    have "m = mk_match tx pos r \<or>
          (pos < fst r \<and> rest \<noteq> [] \<and> m \<in> set (scan its tx (drop (fst r - pos) rest) (fst r) False)) \<or>
          (\<not> pos < fst r \<and> \<not> must_advance \<and> m \<in> set (scan its tx rest pos True))"
      unfolding unfold by (auto split: if_splits)
    with here Some "1.IH" "1.prems"(1) show ?thesis by blast
  qed
qed

lemma finditer_groups:
  "has_group its g \<Longrightarrow> m \<in> set (finditer its txt) \<Longrightarrow> \<exists>s. group m g = Inr s"
  unfolding finditer_def by (rule scan_groups)

lemma scan_nonempty:
  "scan its txt rest pos False \<noteq> [] \<longleftrightarrow>
   (\<exists>k \<le> length rest. match_items its (drop k rest) (pos + k) Map.empty Map.empty None \<noteq> None)"
proof (induction rest arbitrary: pos)
  case Nil
  show ?case by (subst scan.simps) (auto split: option.splits)
next
  case (Cons c cs)
  show ?case
  proof (cases "match_items its (c # cs) pos Map.empty Map.empty None")
    case (Some r)
    then have "scan its txt (c # cs) pos False \<noteq> []"
      by (subst scan.simps) simp
    moreover have "\<exists>k \<le> length (c # cs).
        match_items its (drop k (c # cs)) (pos + k) Map.empty Map.empty None \<noteq> None"
      using Some by (intro exI [of _ 0]) simp
    ultimately show ?thesis by blast
  next
    case None
    then have "scan its txt (c # cs) pos False = scan its txt cs (Suc pos) False"
      by (subst scan.simps) simp
    moreover have "(\<exists>k \<le> length (c # cs).
        match_items its (drop k (c # cs)) (pos + k) Map.empty Map.empty None \<noteq> None) \<longleftrightarrow>
      (\<exists>k \<le> length cs. match_items its (drop k cs) (Suc pos + k) Map.empty Map.empty None \<noteq> None)"
      (is "?L \<longleftrightarrow> ?R")
    proof
      assume ?L
      then obtain k where k: "k \<le> length (c # cs)"
        "match_items its (drop k (c # cs)) (pos + k) Map.empty Map.empty None \<noteq> None" by blast
      with None obtain j where "k = Suc j" by (cases k) auto
      with k show ?R by (intro exI [of _ j]) simp
    next
      assume ?R
      then obtain j where "j \<le> length cs"
        "match_items its (drop j cs) (Suc pos + j) Map.empty Map.empty None \<noteq> None" by blast
      then show ?L by (intro exI [of _ "Suc j"]) simp
    qed
    ultimately show ?thesis using Cons.IH [of "Suc pos"] by simp
  qed
qed

lemma finditer_nonempty:
  "finditer its txt \<noteq> [] \<longleftrightarrow> (\<exists>i \<le> length txt. match_at its txt i)"
  unfolding finditer_def match_at_def scan_nonempty by simp

section \<open>The loops of \<open>export_doc\<close>\<close>

lemma image_loop_Inr:
  "image_loop http dir doc ms trace = Inr (doc1, trace1) \<Longrightarrow>
   shelf doc1 = shelf doc \<and> book doc1 = book doc \<and> page_title doc1 = page_title doc \<and>
   draft doc1 = draft doc \<and>
   (\<exists>events. trace1 = trace @ events \<and> list_all (\<lambda>ev. \<not> is_write_text ev) events)"
proof (induction ms arbitrary: doc trace)
  case Nil
  then show ?case by simp
next
  case (Cons m ms)
  from Cons.prems obtain image_url image_filename status_code content where
    g: "group m 1 = Inr image_url" "group m 2 = Inr image_filename"
    and h: "http image_url = Response status_code content" "\<not> raise_for_status status_code"
    by (auto simp: Let_def split: sum.splits response.splits if_splits)
  let ?doc = "doc\<lparr>page_markdown :=
                   take (mstart m) (page_markdown doc) @ ''![]('' @ image_filename @ '')'' @
                   drop (mend m + 1) (page_markdown doc)\<rparr>"
  let ?tr = "(trace @
            [Echo (''Found embedded image in '' @ book doc @ '' => '' @ page_title doc @
                   '': '' @ image_filename),
             HttpGet image_url]) @ [WriteBinary (path_div dir image_filename) content]"
  from Cons.prems g h have "image_loop http dir ?doc ms ?tr = Inr (doc1, trace1)"
    by (simp add: Let_def)
  from Cons.IH [OF this] show ?case by auto
qed


lemma link_loop_Inr:
  "link_loop doc ms found trace = Inr (found', trace') \<Longrightarrow>
   (found' \<longleftrightarrow> found \<or> ms \<noteq> []) \<and>
   (\<exists>events. trace' = trace @ events \<and> list_all (\<lambda>ev. \<not> is_write_text ev) events)"
proof (induction ms arbitrary: found trace)
  case Nil
  then show ?case by simp
next
  case (Cons m ms)
  from Cons.prems obtain g1 g2 where g: "group m 1 = Inr g1" "group m 2 = Inr g2"
    by (auto split: sum.splits)
  let ?ev = "Echo (''>> Internal link found in ['' @ page_title doc @ ''] to ['' @ g1 @
                   '']/['' @ g2 @ '']'') #
             map (\<lambda>snippet_line. Echo (''    '' @ snippet_line))
               (splitlines (snippet (page_markdown doc) m))"
  from Cons.prems g have "link_loop doc ms True (trace @ ?ev) = Inr (found', trace')"
    by simp
  from Cons.IH [OF this] obtain events where
    "found'" "trace' = (trace @ ?ev) @ events" "list_all (\<lambda>ev. \<not> is_write_text ev) events"
    by auto
  moreover have "list_all (\<lambda>ev. \<not> is_write_text ev) ?ev"
    by (simp add: list_all_iff)
  ultimately show ?case by auto
qed

lemma link_loop_total:
  "\<forall>m \<in> set ms. (\<exists>g1. group m 1 = Inr g1) \<and> (\<exists>g2. group m 2 = Inr g2) \<Longrightarrow>
   \<exists>found' trace'. link_loop doc ms found trace = Inr (found', trace')"
proof (induction ms arbitrary: found trace)
  case Nil
  then show ?case by simp
next
  case (Cons m ms)
  then obtain g1 g2 where g: "group m 1 = Inr g1" "group m 2 = Inr g2" by auto
  with Cons show ?case by simp
qed

lemma py_replace_slash:
  "py_replace ''/'' ''-'' s = map (\<lambda>c. if c = CHR ''/'' then CHR ''-'' else c) s"
proof (induction s)
  case Nil
  show ?case by (simp add: py_replace.simps)
next
  case (Cons c s)
  show ?case
  proof (cases "c = CHR ''/''")
    case True
    have "py_replace ''/'' ''-'' (c # s) = ''-'' @ py_replace ''/'' ''-'' s"
      unfolding True by (subst py_replace.simps) simp
    with Cons True show ?thesis by simp
  next
    case False
    have "py_replace ''/'' ''-'' (c # s) = c # py_replace ''/'' ''-'' s"
      using False by (subst py_replace.simps) simp
    with Cons False show ?thesis by simp
  qed
qed

lemma export_doc_Inr:
  assumes "export_doc http export_path doc image_link_regex internal_link_regex trace =
           Inr (found, doc', trace')"
  shows "\<exists>doc1 events.
           (\<exists>trace1.
              image_loop http (path_div (path_div export_path (shelf doc)) (book doc)) doc
                (rev (finditer image_link_regex (page_markdown doc)))
                (trace @ [MakeDirs (path_div (path_div export_path (shelf doc)) (book doc))]) =
              Inr (doc1, trace1)) \<and>
           shelf doc1 = shelf doc \<and> book doc1 = book doc \<and> page_title doc1 = page_title doc \<and>
           draft doc1 = draft doc \<and>
           doc' = doc1\<lparr>page_markdown :=
                    title_heading doc @ decrease_header_level (page_markdown doc1)\<rparr> \<and>
           (found \<longleftrightarrow> finditer internal_link_regex (page_markdown doc') \<noteq> []) \<and>
           list_all (\<lambda>ev. \<not> is_write_text ev) events \<and>
           trace' = trace @ events @
             [WriteText (path_div (path_div (path_div export_path (shelf doc)) (book doc))
                           (py_replace ''/'' ''-'' (page_title doc) @ ''.md''))
                (page_markdown doc')]"
proof -
  let ?dir = "path_div (path_div export_path (shelf doc)) (book doc)"
  from assms obtain doc1 trace1 where
    il: "image_loop http ?dir doc (rev (finditer image_link_regex (page_markdown doc)))
           (trace @ [MakeDirs ?dir]) = Inr (doc1, trace1)"
    by (auto simp: export_doc_def Let_def split: sum.splits)
  let ?doc3 = "doc1\<lparr>page_markdown := title_heading doc1 @ decrease_header_level (page_markdown doc1)\<rparr>"
  from assms il obtain trace2 where
    ll: "link_loop ?doc3 (finditer internal_link_regex (page_markdown ?doc3)) False trace1 =
           Inr (found, trace2)"
    and d: "doc' = ?doc3"
    and t: "trace' = trace2 @
             [WriteText (path_div ?dir (py_replace ''/'' ''-'' (page_title ?doc3) @ ''.md''))
                (page_markdown ?doc3)]"
    by (auto simp: export_doc_def Let_def title_heading_def split: sum.splits)
  from image_loop_Inr [OF il] obtain ev1 where
    f: "shelf doc1 = shelf doc" "book doc1 = book doc" "page_title doc1 = page_title doc"
       "draft doc1 = draft doc"
    and e1: "trace1 = (trace @ [MakeDirs ?dir]) @ ev1" "list_all (\<lambda>ev. \<not> is_write_text ev) ev1"
    by blast
  from link_loop_Inr [OF ll] obtain ev2 where
    fl: "found \<longleftrightarrow> finditer internal_link_regex (page_markdown ?doc3) \<noteq> []"
    and e2: "trace2 = trace1 @ ev2" "list_all (\<lambda>ev. \<not> is_write_text ev) ev2"
    by auto
  have th: "title_heading doc1 = title_heading doc"
    using f by (simp add: title_heading_def)
  have "list_all (\<lambda>ev. \<not> is_write_text ev) (MakeDirs ?dir # ev1 @ ev2)"
    using e1 e2 by simp
  moreover have "trace' = trace @ (MakeDirs ?dir # ev1 @ ev2) @
             [WriteText (path_div ?dir (py_replace ''/'' ''-'' (page_title doc) @ ''.md''))
                (page_markdown doc')]"
    using t e1 e2 d f by simp
  ultimately show ?thesis
    using f d fl th il by (intro exI [of _ doc1] exI [of _ "MakeDirs ?dir # ev1 @ ev2"]) simp
qed

section \<open>Paths of the written files\<close>

lemma split_slash_nonempty: "split_slash s \<noteq> []"
  by (cases s) (auto split: list.splits)

lemma split_slash_plain: "CHR ''/'' \<notin> set s \<Longrightarrow> split_slash s = [s]"
  by (induction s) auto

lemma split_slash_append:
  "split_slash (a @ CHR ''/'' # b) = split_slash a @ split_slash b"
proof (induction a)
  case Nil
  show ?case by simp
next
  case (Cons c a)
  obtain p ps where "split_slash a = p # ps"
    using split_slash_nonempty [of a] by (cases "split_slash a") auto
  with Cons show ?case by simp
qed

lemma path_parts_append:
  "path_parts (a @ ''/'' @ b) = path_parts a @ path_parts b"
  by (simp add: path_parts_def split_slash_append)

lemma path_div_file_name:
  assumes "CHR ''/'' \<notin> set s"
  shows "path_div p (s @ ''.md'') = \<lparr>root = root p, parts = parts p @ [s @ ''.md'']\<rparr>"
proof -
  have "path_root (s @ ''.md'') = []"
    using assms by (cases s) (auto simp: path_root_def)
  moreover have "CHR ''/'' \<notin> set (s @ ''.md'')" using assms by simp
  then have "split_slash (s @ ''.md'') = [s @ ''.md'']" by (rule split_slash_plain)
  then have "path_parts (s @ ''.md'') = [s @ ''.md'']"
    by (cases s) (auto simp: path_parts_def)
  ultimately show ?thesis by (simp add: path_div_def)
qed

lemma path_div_relative:
  "path_root s = [] \<Longrightarrow> path_div p s = \<lparr>root = root p, parts = parts p @ path_parts s\<rparr>"
  by (simp add: path_div_def)

lemma split_slash_no_slash: "p \<in> set (split_slash s) \<Longrightarrow> CHR ''/'' \<notin> set p"
proof (induction s arbitrary: p)
  case Nil
  then show ?case by simp
next
  case (Cons c cs)
  obtain k ks where "split_slash cs = k # ks"
    using split_slash_nonempty [of cs] by (cases "split_slash cs") auto
  with Cons show ?case by (auto split: if_splits)
qed

lemma path_parts_component:
  "CHR ''/'' \<notin> set p \<Longrightarrow> p \<noteq> [] \<Longrightarrow> p \<noteq> ''.'' \<Longrightarrow> path_parts p = [p]"
  by (simp add: path_parts_def split_slash_plain)

lemma path_parts_members:
  "p \<in> set (path_parts s) \<Longrightarrow> p \<noteq> [] \<and> p \<noteq> ''.'' \<and> CHR ''/'' \<notin> set p"
  by (auto simp: path_parts_def dest: split_slash_no_slash)

lemma path_root_empty: "path_root s = [] \<longleftrightarrow> \<not> prefix ''/'' s"
  by (cases s) (auto simp: path_root_def)

lemma path_to_book_cases:
  "path_div (path_div export_path sh) bk =
     (if path_root bk \<noteq> [] then \<lparr>root = path_root bk, parts = path_parts bk\<rparr>
      else if path_root sh \<noteq> [] then \<lparr>root = path_root sh, parts = path_parts sh @ path_parts bk\<rparr>
      else \<lparr>root = root export_path, parts = parts export_path @ path_parts sh @ path_parts bk\<rparr>)"
  by (simp add: path_div_def)

section \<open>The two patterns for a base URL without operators other than the dot\<close>

lemma internal_link_pattern_eq:
  "internal_link_pattern url =
   rstrip ''/'' url @ ''/books/(.+?)/page/(.+?)'' @ [CHR 0x5C] @ '')''"
  by (simp add: internal_link_pattern_def INTERNAL_LINK_REGEX_TEMPLATE_def py_replace.simps)

lemma image_link_pattern_eq:
  "image_link_pattern url =
     [CHR 0x5C] @ ''['' @ [CHR 0x5C] @ ''!'' @ [CHR 0x5C] @ ''[.+'' @ [CHR 0x5C] @ '']'' @
     [CHR 0x5C] @ ''('' @ rstrip ''/'' url @ ''/uploads/.*?'' @ [CHR 0x5C] @ ''.'' @ [CHR 0x5C] @ ''w{3}'' @
     [CHR 0x5C] @ '')'' @ [CHR 0x5C] @ '']'' @ [CHR 0x5C] @
     ''(('' @ rstrip ''/'' url @ ''/uploads/.*?/([^/]*?'' @ [CHR 0x5C] @ ''.'' @ [CHR 0x5C] @ ''w{3}))'' @
     [CHR 0x5C] @ '')''"
  by (simp add: image_link_pattern_def IMAGE_LINK_REGEX_TEMPLATE_def py_replace.simps)

lemma rstrip_keeps:
  "c \<in> set s \<Longrightarrow> c \<notin> set chars \<Longrightarrow> c \<in> set (rstrip chars s)"
proof -
  have "x \<in> set xs \<Longrightarrow> \<not> P x \<Longrightarrow> x \<in> set (dropWhile P xs)" for x :: char and xs P
    by (induction xs) auto
  from this [of c "rev s" "\<lambda>c. c \<in> set chars"] show "c \<in> set s \<Longrightarrow> c \<notin> set chars \<Longrightarrow> c \<in> set (rstrip chars s)"
    by (simp add: rstrip_def)
qed

lemma rstrip_subset: "set (rstrip chars s) \<subseteq> set s"
  using set_dropWhileD [of _ "\<lambda>c. c \<in> set chars" "rev s"] by (auto simp: rstrip_def)

lemma parse_link_tail:
  "parse_items (''/books/(.+?)/page/(.+?)'' @ [CHR 0x5C] @ '')'') 1 [] = Inr link_tail"
  by code_simp

lemma match_link_tail:
  "match_items link_tail ''/books/a/page/b)'' pos starts spans None \<noteq> None"
  by (simp add: link_tail_def rep_counts_def)

lemma parse_quant_plain:
  "x \<notin> set ''*+?{'' \<Longrightarrow> parse_quant (x # xs) = NoQuant"
  by (simp add: parse_quant_def)

lemma parse_url_chars:
  assumes "\<forall>c \<in> set b. url_char c" and "rest \<noteq> []" and "hd rest \<notin> set ''*+?{''"
  shows "parse_items (b @ rest) n opened =
         foldr cons_item (map atom_of b) (parse_items rest n opened)"
  using assms(1)
proof (induction b)
  case Nil
  show ?case by simp
next
  case (Cons c b)
  then have c: "url_char c" and b: "\<forall>c \<in> set b. url_char c" by simp_all
  obtain x xs where next_char: "b @ rest = x # xs" and x: "x \<notin> set ''*+?{''"
  proof (cases b)
    case Nil
    with assms(2,3) that show ?thesis by (cases rest) auto
  next
    case (Cons y ys)
    with b have "url_char y" by simp
    then have "y \<notin> set ''*+?{''" by (auto simp: url_char_def)
    with Cons that show ?thesis by simp
  qed
  have q: "parse_quant (b @ rest) = NoQuant"
    unfolding next_char using x by (rule parse_quant_plain)
  have a: "parse_atom c (b @ rest) = Inr (if c = CHR ''.'' then AnyChar else Lit c, 0)"
    using c by (auto simp: parse_atom_def url_char_def)
  have "parse_items (c # b @ rest) n opened =
        cons_item (atom_of c) (parse_items (b @ rest) n opened)"
    using c a q by (auto simp: url_char_def atom_of_def)
  with Cons.IH [OF b] show ?case by simp
qed

lemma match_url_chars:
  "match_items (map atom_of b @ its) (map undot b @ rest) pos starts spans stop =
   match_items its rest (pos + length b) starts spans stop"
  by (induction b arbitrary: pos) (auto simp: atom_of_def undot_def)

lemma parse_image_tail:
  "parse_items (''/uploads/.*?/([^/]*?'' @ [CHR 0x5C] @ ''.'' @ [CHR 0x5C] @ ''w{3}))'' @
     [CHR 0x5C] @ '')'') 2 [1] = Inr image_tail"
  by code_simp

lemma digits_value_3: "digits_value ''3'' = 3"
  by code_simp

lemma parse_image_head:
  "parse_quant rest = NoQuant \<Longrightarrow>
   parse_items ([CHR 0x5C] @ ''['' @ [CHR 0x5C] @ ''!'' @ [CHR 0x5C] @ ''[.+'' @ [CHR 0x5C] @
                '']'' @ [CHR 0x5C] @ ''('' @ rest) n opened =
   foldr cons_item image_head (parse_items rest n opened)"
  by (simp add: image_head_def parse_atom_def parse_quant_def lazy_suffix_def ascii_alnum_def)

lemma parse_image_middle:
  "\<not> prefix ''?'' rest \<Longrightarrow>
   parse_items (''/uploads/.*?'' @ [CHR 0x5C] @ ''.'' @ [CHR 0x5C] @ ''w{3}'' @
     [CHR 0x5C] @ '')'' @ [CHR 0x5C] @ '']'' @ [CHR 0x5C] @ ''(('' @ rest) 1 [] =
   foldr cons_item image_middle (parse_items rest 2 [1])"
  by (simp add: image_middle_def parse_atom_def parse_quant_def lazy_suffix_def ascii_alnum_def
      is_digit_def digits_value_3 numeral_2_eq_2)

lemma foldr_cons_item_Inr: "foldr cons_item its (Inr r) = Inr (its @ r)"
  by (induction its) (simp_all add: cons_item_def)

lemma parse_quant_url_chars:
  "\<forall>c \<in> set b. url_char c \<Longrightarrow> x \<notin> set ''*+?{'' \<Longrightarrow> parse_quant (b @ x # xs) = NoQuant"
  by (cases b) (auto simp: parse_quant_plain url_char_def)

lemma no_question_mark:
  "\<forall>c \<in> set b. url_char c \<Longrightarrow> x \<noteq> CHR ''?'' \<Longrightarrow> \<not> prefix ''?'' (b @ x # xs)"
  by (cases b) (auto simp: url_char_def)

lemma compile_internal_link_pattern:
  assumes "\<forall>c \<in> set (rstrip ''/'' url). url_char c"
  shows "re_compile (internal_link_pattern url) = Inr (map atom_of (rstrip ''/'' url) @ link_tail)"
proof -
  let ?rest = "''/books/(.+?)/page/(.+?)'' @ [CHR 0x5C] @ '')''"
  have "parse_items (rstrip ''/'' url @ ?rest) 1 [] =
        foldr cons_item (map atom_of (rstrip ''/'' url)) (parse_items ?rest 1 [])"
    by (rule parse_url_chars [OF assms]) simp_all
  then show ?thesis
    unfolding re_compile_def internal_link_pattern_eq parse_link_tail foldr_cons_item_Inr .
qed

lemma compile_image_link_pattern:
  assumes "\<forall>c \<in> set (rstrip ''/'' url). url_char c"
  shows "re_compile (image_link_pattern url) =
         Inr (image_head @ map atom_of (rstrip ''/'' url) @ image_middle @
              map atom_of (rstrip ''/'' url) @ image_tail)"
proof -
  let ?b = "rstrip ''/'' url"
  let ?p3 = "''/uploads/.*?/([^/]*?'' @ [CHR 0x5C] @ ''.'' @ [CHR 0x5C] @ ''w{3}))'' @
     [CHR 0x5C] @ '')''"
  let ?p2 = "''/uploads/.*?'' @ [CHR 0x5C] @ ''.'' @ [CHR 0x5C] @ ''w{3}'' @
     [CHR 0x5C] @ '')'' @ [CHR 0x5C] @ '']'' @ [CHR 0x5C] @ ''(('' @ ?b @ ?p3"
  have s4: "parse_items (?b @ ?p3) 2 [1] = Inr (map atom_of ?b @ image_tail)"
  proof -
    have "parse_items (?b @ ?p3) 2 [1] = foldr cons_item (map atom_of ?b) (parse_items ?p3 2 [1])"
      by (rule parse_url_chars [OF assms]) simp_all
    then show ?thesis unfolding parse_image_tail foldr_cons_item_Inr .
  qed
  have s3: "parse_items ?p2 1 [] = Inr (image_middle @ map atom_of ?b @ image_tail)"
  proof -
    have "\<not> prefix ''?'' (?b @ ?p3)"
      using no_question_mark [OF assms, of "CHR ''/''"] by simp
    from parse_image_middle [OF this] show ?thesis
      unfolding s4 foldr_cons_item_Inr .
  qed
  have s2: "parse_items (?b @ ?p2) 1 [] =
            Inr (map atom_of ?b @ image_middle @ map atom_of ?b @ image_tail)"
  proof -
    have "parse_items (?b @ ?p2) 1 [] = foldr cons_item (map atom_of ?b) (parse_items ?p2 1 [])"
      by (rule parse_url_chars [OF assms]) simp_all
    then show ?thesis unfolding s3 foldr_cons_item_Inr .
  qed
  have "parse_quant (?b @ ?p2) = NoQuant"
    using parse_quant_url_chars [OF assms, of "CHR ''/''"] by simp
  from parse_image_head [OF this, of 1 "[]"] show ?thesis
    unfolding re_compile_def image_link_pattern_eq s2 foldr_cons_item_Inr .
qed

lemma match_rep:
  assumes "lo \<le> k"
    and "k \<le> (case hi of None \<Rightarrow> length (takeWhile (cmatch c) rest)
                | Some h \<Rightarrow> min h (length (takeWhile (cmatch c) rest)))"
    and "match_items its (drop k rest) (pos + k) starts spans stop \<noteq> None"
  shows "match_items (Rep c lo hi greedy # its) rest pos starts spans stop \<noteq> None"
proof -
  have "k \<in> set (rep_counts c lo hi greedy rest)"
    using assms(1,2) by (auto simp: rep_counts_def Let_def)
  with assms(3) show ?thesis by (auto simp: first_some_None)
qed

lemma word_chars: "word_char CHR ''p''" "word_char CHR ''q''" "word_char CHR ''n''" "word_char CHR ''g''"
  by code_simp+

lemma word_char_first_word: "word_char (first_word b)"
  by (simp add: first_word_def word_chars)

lemma first_word_not_newline: "first_word b \<noteq> CHR 0x0A"
  by (simp add: first_word_def)

lemma first_word_cases: "first_word b = CHR ''p'' \<or> first_word b = CHR ''q''"
  by (simp add: first_word_def)

lemma match_image_tail:
  assumes "starts 1 = Some s"
  shows "match_items image_tail (''/uploads/d/(.'' @ first_word b # ''ng)'') pos starts spans None
         \<noteq> None"
proof -
  have "match_items image_tail (''/uploads/d/(.'' @ w # ''ng)'') pos starts spans None \<noteq> None"
    if "w = CHR ''p'' \<or> w = CHR ''q''" for w
    using that assms by (elim disjE; simp add: image_tail_def rep_counts_def word_chars)
  from this [OF first_word_cases] show ?thesis .
qed

lemma match_image_middle:
  assumes "\<And>starts. starts 1 = Some (pos + 17) \<Longrightarrow>
             match_items its rest (pos + 17) starts spans stop \<noteq> None"
  shows "match_items (image_middle @ its) (''/uploads/(.'' @ first_word b # ''ng)]('' @ rest) pos
           starts spans stop \<noteq> None"
proof -
  let ?after = "[Atom (Lit CHR '')''), Atom (Lit CHR '']''), Atom (Lit CHR ''(''), GOpen 1] @ its"
  have end_part: "match_items ?after ('')]('' @ rest) (pos + 14) starts spans stop \<noteq> None"
    using assms [of "starts(1 \<mapsto> pos + 17)"] by (simp add: numeral_eq_Suc)
  have w: "match_items (Rep WordChar 3 (Some 3) True # ?after)
             (first_word b # ''ng)]('' @ rest) (pos + 11) starts spans stop \<noteq> None"
    by (rule match_rep [where k = 3])
       (use end_part in \<open>simp_all add: word_chars word_char_first_word add.assoc\<close>)
  have d: "match_items (Atom (Lit CHR ''.'') # Rep WordChar 3 (Some 3) True # ?after)
             (''.'' @ first_word b # ''ng)]('' @ rest) (pos + 10) starts spans stop \<noteq> None"
    using w by (simp add: numeral_eq_Suc)
  have r: "match_items (Rep AnyChar 0 None False # Atom (Lit CHR ''.'') #
             Rep WordChar 3 (Some 3) True # ?after)
             (''(.'' @ first_word b # ''ng)]('' @ rest) (pos + 9) starts spans stop \<noteq> None"
    by (rule match_rep [where k = 1]) (use d in \<open>simp_all add: add.assoc\<close>)
  then show ?thesis
    by (simp add: image_middle_def numeral_eq_Suc)
qed

lemma match_image_head:
  assumes "match_items its rest (pos + 6) starts spans stop \<noteq> None"
  shows "match_items (image_head @ its) (''[![a]('' @ rest) pos starts spans stop \<noteq> None"
proof -
  have "match_items (Rep AnyChar 1 None True # Atom (Lit CHR '']'') # Atom (Lit CHR ''('') # its)
          (''a]('' @ rest) (pos + 3) starts spans stop \<noteq> None"
    by (rule match_rep [where k = 1]) (use assms in \<open>simp_all add: numeral_eq_Suc\<close>)
  then show ?thesis
    by (simp add: image_head_def numeral_eq_Suc)
qed

lemma match_image_text:
  "match_items (image_head @ map atom_of b @ image_middle @ map atom_of b @ image_tail)
     (image_text b) 0 Map.empty Map.empty None \<noteq> None"
proof -
  have tail: "match_items (map atom_of b @ image_tail)
          (map undot b @ ''/uploads/d/(.'' @ first_word b # ''ng)'') (6 + length b + 17)
          starts Map.empty None \<noteq> None"
    if "starts 1 = Some (6 + length b + 17)" for starts
    unfolding match_url_chars using that by (rule match_image_tail)
  have "match_items (image_middle @ map atom_of b @ image_tail)
          (''/uploads/(.'' @ first_word b # ''ng)]('' @ map undot b @
           ''/uploads/d/(.'' @ first_word b # ''ng)'') (6 + length b)
          Map.empty Map.empty None \<noteq> None"
    by (rule match_image_middle) (rule tail)
  then have "match_items (map atom_of b @ image_middle @ map atom_of b @ image_tail)
          (map undot b @ ''/uploads/(.'' @ first_word b # ''ng)]('' @ map undot b @
           ''/uploads/d/(.'' @ first_word b # ''ng)'') (0 + 6)
          Map.empty Map.empty None \<noteq> None"
    by (simp only: match_url_chars) simp
  from match_image_head [OF this] show ?thesis
    by (simp add: image_text_def)
qed

lemma match_link_text:
  "match_items (map atom_of b @ link_tail) (link_text b) 0 Map.empty Map.empty None \<noteq> None"
  by (simp add: link_text_def match_url_chars match_link_tail)

lemma split_at_first:
  "d \<notin> set A \<Longrightarrow> xs @ d # ys = A @ d # Z \<Longrightarrow>
   (xs = A \<and> ys = Z) \<or> (\<exists>us. xs = A @ d # us \<and> us @ d # ys = Z)"
proof (induction A arbitrary: xs)
  case Nil
  then show ?case by (cases xs) auto
next
  case (Cons a A)
  then show ?case by (cases xs) auto
qed

lemma split_at_two:
  assumes "d \<notin> set A" "d \<notin> set B" "d \<notin> set C" and eq: "xs @ d # ys = A @ d # B @ d # C"
  shows "(xs = A \<and> ys = B @ d # C) \<or> (xs = A @ d # B \<and> ys = C)"
proof -
  from split_at_first [OF assms(1) eq]
  consider "xs = A \<and> ys = B @ d # C" | us where "xs = A @ d # us" "us @ d # ys = B @ d # C"
    by blast
  then show ?thesis
  proof cases
    case 1
    then show ?thesis by simp
  next
    case 2
    from split_at_first [OF assms(2) 2(2)]
    consider "us = B \<and> ys = C" | vs where "us = B @ d # vs" "vs @ d # ys = C"
      by blast
    then show ?thesis
    proof cases
      case 1
      with 2 show ?thesis by simp
    next
      case 2
      then have "d \<in> set C" by auto
      with assms(3) show ?thesis by simp
    qed
  qed
qed

lemma rstrip_prefix: "\<exists>k. s = rstrip chars s @ k"
proof -
  let ?P = "\<lambda>c. c \<in> set chars"
  have "rev (takeWhile ?P (rev s) @ dropWhile ?P (rev s)) = s"
    by (simp only: takeWhile_dropWhile_id rev_rev_ident)
  then have "rev (dropWhile ?P (rev s)) @ rev (takeWhile ?P (rev s)) = s"
    by (simp only: rev_append)
  then have "s = rstrip chars s @ rev (takeWhile ?P (rev s))"
    by (simp only: rstrip_def)
  then show ?thesis ..
qed

lemma sublist_of_prefix: "sublist (b @ k) t \<Longrightarrow> sublist b t"
  by (auto simp: sublist_def)

lemma first_dot:
  assumes "CHR ''.'' \<in> set b"
  shows "b = takeWhile (\<lambda>c. c \<noteq> CHR ''.'') b @ CHR ''.'' # after_dot b"
proof -
  let ?d = "dropWhile (\<lambda>c. c \<noteq> CHR ''.'') b"
  from assms have ne: "?d \<noteq> []" by (simp add: dropWhile_eq_Nil_conv)
  then have "hd ?d = CHR ''.''" using hd_dropWhile [of "\<lambda>c. c \<noteq> CHR ''.''" b] by simp
  with ne have "?d = CHR ''.'' # after_dot b"
    by (cases ?d) (simp_all add: after_dot_def)
  moreover have "b = takeWhile (\<lambda>c. c \<noteq> CHR ''.'') b @ ?d" by simp
  ultimately show ?thesis by simp
qed

lemma first_word_differs: "after_dot b \<noteq> [] \<Longrightarrow> hd (after_dot b) \<noteq> first_word b"
  by (cases "after_dot b") (auto simp: first_word_def)

lemma image_text_avoids:
  assumes chars: "\<forall>c \<in> set b. url_char c" and dot: "CHR ''.'' \<in> set b" and one: "b \<noteq> ''.''"
  shows "\<not> sublist b (image_text b)"
proof
  assume "sublist b (image_text b)"
  then obtain P S where t: "image_text b = P @ b @ S" by (auto simp: sublist_def)
  let ?L = "takeWhile (\<lambda>c. c \<noteq> CHR ''.'') b"
  let ?R = "after_dot b"
  let ?w = "first_word b"
  let ?A = "''[![a]('' @ map undot b @ ''/uploads/(''"
  let ?B = "?w # ''ng)]('' @ map undot b @ ''/uploads/d/(''"
  let ?C = "?w # ''ng)''"
  note b = first_dot [OF dot]
  have w: "?w \<noteq> CHR ''.''" using first_word_cases [of b] by auto
  have nodot: "CHR ''.'' \<notin> set ?A" "CHR ''.'' \<notin> set ?B" "CHR ''.'' \<notin> set ?C"
    using w by (auto simp: undot_def)
  have "(P @ ?L) @ CHR ''.'' # (?R @ S) = P @ (?L @ CHR ''.'' # ?R) @ S" by simp
  also have "\<dots> = image_text b" using b t by simp
  also have "\<dots> = ?A @ CHR ''.'' # ?B @ CHR ''.'' # ?C" by (simp add: image_text_def)
  finally have eq: "(P @ ?L) @ CHR ''.'' # (?R @ S) = ?A @ CHR ''.'' # ?B @ CHR ''.'' # ?C" .
  have paren: "\<not> url_char CHR ''(''" by (simp add: url_char_def)
  have left: "?L = []" if "last (P @ ?L) = CHR ''(''"
  proof (rule ccontr)
    assume ne: "?L \<noteq> []"
    then have "last ?L = CHR ''(''" using that by simp
    moreover have "last ?L \<in> set b" using ne last_in_set set_takeWhileD by metis
    ultimately show False using chars paren by auto
  qed
  have right: False if "?L = []" "hd (?R @ S) = ?w"
  proof -
    from b that(1) have "b = CHR ''.'' # ?R" by simp
    with one have ne: "?R \<noteq> []" by auto
    then have "hd ?R = ?w" using that(2) by simp
    with first_word_differs [OF ne] show False by simp
  qed
  from split_at_two [OF nodot eq] show False
  proof
    assume c: "P @ ?L = ?A \<and> ?R @ S = ?B @ CHR ''.'' # ?C"
    then have "last (P @ ?L) = CHR ''(''" by simp
    from left [OF this] c right show False by simp
  next
    assume c: "P @ ?L = ?A @ CHR ''.'' # ?B \<and> ?R @ S = ?C"
    then have "last (P @ ?L) = CHR ''(''" by simp
    from left [OF this] c right show False by simp
  qed
qed

lemma link_text_avoids: "CHR ''.'' \<in> set b' \<Longrightarrow> \<not> sublist b' (link_text b)"
proof
  assume "CHR ''.'' \<in> set b'" "sublist b' (link_text b)"
  with set_mono_sublist [of b' "link_text b"] have "CHR ''.'' \<in> set (link_text b)" by blast
  then show False by (auto simp: link_text_def undot_def)
qed

lemma sets_group_url_chars:
  "sets_group g (map atom_of b @ its) opened = sets_group g its opened"
  by (induction b) (simp_all add: atom_of_def)

lemma internal_link_pattern_groups:
  "has_group (map atom_of b @ link_tail) 1 \<and> has_group (map atom_of b @ link_tail) 2"
  by (simp add: has_group_def sets_group_url_chars link_tail_def)

section \<open>Claims on the heading rewrite\<close>

text \<open>
  C4. For a text whose detected top level is \<open>t > 1\<close>, the substitutions of the code, run
  level by level from \<open>t\<close> to 7, give the text that the one-pass rewrite over the original
  lines gives; and when the substitution of a level runs, no line it matches was produced
  by an earlier substitution (every line that differs from the original one is left alone).
\<close>

theorem sequential_rewrite_is_one_pass:
  assumes "get_top_level_header md = Some t" and "1 < t"
  shows "decrease_header_level md = spec_rewrite_one_pass t md \<and>
         text_after (length (replacements t)) t md = decrease_header_level md \<and>
         (\<forall>n < length (replacements t). \<forall>i < length (text_lines md).
            text_lines (text_after n t md) ! i \<noteq> text_lines md ! i \<longrightarrow>
            \<not> prefix (header_text (fst (replacements t ! n)))
                 (text_lines (text_after n t md) ! i))"
proof -
  from assms have t: "0 < t" and t1: "t \<noteq> 1" by simp_all
  have "text_after (length (replacements t)) t md = decrease_header_level md"
    using assms(1) t1 by (simp add: text_after_def decrease_header_level_def)
  with decrease_is_one_pass [OF assms(1)] rewritten_line_not_matched_again [OF t]
  show ?thesis by blast
qed

theorem sequential_rewrite_is_one_pass_witness:
  "get_top_level_header ''## a\<newline>### b\<newline>## ## c'' = Some 2 \<and> (1::nat) < 2 \<and>
   decrease_header_level ''## a\<newline>### b\<newline>## ## c'' =
     spec_rewrite_one_pass 2 ''## a\<newline>### b\<newline>## ## c'' \<and>
   decrease_header_level ''## a\<newline>### b\<newline>## ## c'' = ''# a\<newline>## b\<newline># ## c''"
proof -
  have h: "get_top_level_header ''## a\<newline>### b\<newline>## ## c'' = Some 2" by code_simp
  have v: "decrease_header_level ''## a\<newline>### b\<newline>## ## c'' = ''# a\<newline>## b\<newline># ## c''"
    by code_simp
  from sequential_rewrite_is_one_pass [OF h] h v show ?thesis by simp
qed

text \<open>
  C5. A text with a heading of level \<open>L\<close> (1 to 7) and none of a lower level comes out of
  the detect-and-rewrite step with top level 1, as many lines as before, and every pair
  of lines in the same relative depth; a text with no heading of level 1 to 7 is detected
  as \<open>None\<close> and left as it is; a detected level is never above 7, and a heading line of
  level 8 or deeper is never rewritten.
\<close>

theorem decrease_header_level_normalises:
  "(1 \<le> L \<and> L \<le> 7 \<and> header_search L md \<and> (\<forall>k \<in> {1..<L}. \<not> header_search k md) \<longrightarrow>
      get_top_level_header md = Some L \<and>
      get_top_level_header (decrease_header_level md) = Some 1 \<and>
      length (text_lines (decrease_header_level md)) = length (text_lines md) \<and>
      (\<forall>i < length (text_lines md). \<forall>j < length (text_lines md).
         same_depth_order (heading_level (text_lines md ! i)) (heading_level (text_lines md ! j))
           (heading_level (text_lines (decrease_header_level md) ! i))
           (heading_level (text_lines (decrease_header_level md) ! j)))) \<and>
   ((\<forall>k \<in> {1..7}. \<not> header_search k md) \<longrightarrow>
      get_top_level_header md = None \<and> decrease_header_level md = md) \<and>
   (\<forall>t. get_top_level_header md = Some t \<longrightarrow> 1 \<le> t \<and> t \<le> 7) \<and>
   (\<forall>i < length (text_lines md). \<forall>n \<ge> 8.
      heading_level (text_lines md ! i) = Some n \<longrightarrow>
      text_lines (decrease_header_level md) ! i = text_lines md ! i)"
proof (intro conjI impI allI)
  assume h: "1 \<le> L \<and> L \<le> 7 \<and> header_search L md \<and> (\<forall>k \<in> {1..<L}. \<not> header_search k md)"
  then show top: "get_top_level_header md = Some L"
    by (simp add: get_top_level_header_Some LOWEST_HEADER_LEVEL_def)
  show "get_top_level_header (decrease_header_level md) = Some 1"
    using top by (rule get_top_after_decrease)
  show "length (text_lines (decrease_header_level md)) = length (text_lines md)"
    by (simp add: text_lines_decrease [OF top])
  fix i j
  assume "i < length (text_lines md)" "j < length (text_lines md)"
  with top show "same_depth_order (heading_level (text_lines md ! i))
      (heading_level (text_lines md ! j))
      (heading_level (text_lines (decrease_header_level md) ! i))
      (heading_level (text_lines (decrease_header_level md) ! j))"
    by (rule decrease_depth_order)
next
  assume "\<forall>k \<in> {1..7}. \<not> header_search k md"
  then show none: "get_top_level_header md = None"
    by (simp add: get_top_level_header_None LOWEST_HEADER_LEVEL_def)
  then show "decrease_header_level md = md"
    by (rule decrease_header_level_None)
next
  fix t
  assume "get_top_level_header md = Some t"
  then show "1 \<le> t" and "t \<le> 7"
    by (simp_all add: get_top_level_header_Some LOWEST_HEADER_LEVEL_def)
next
  fix i n
  assume "i < length (text_lines md)" "8 \<le> n" "heading_level (text_lines md ! i) = Some n"
  then show "text_lines (decrease_header_level md) ! i = text_lines md ! i"
    by (intro deep_heading_kept) (simp_all add: LOWEST_HEADER_LEVEL_def)
qed

theorem decrease_header_level_normalises_witness:
  "header_search 2 ''## a\<newline>### b\<newline>######## deep'' \<and>
   \<not> header_search 1 ''## a\<newline>### b\<newline>######## deep'' \<and>
   get_top_level_header (decrease_header_level ''## a\<newline>### b\<newline>######## deep'') = Some 1 \<and>
   decrease_header_level ''## a\<newline>### b\<newline>######## deep'' = ''# a\<newline>## b\<newline>######## deep'' \<and>
   list_all (\<lambda>k. \<not> header_search k ''plain\<newline>######## deep'') [1..<8] \<and>
   get_top_level_header ''plain\<newline>######## deep'' = None \<and>
   decrease_header_level ''plain\<newline>######## deep'' = ''plain\<newline>######## deep''"
proof -
  have s2: "header_search 2 ''## a\<newline>### b\<newline>######## deep''"
    by code_simp
  have s1: "\<not> header_search 1 ''## a\<newline>### b\<newline>######## deep''"
    by code_simp
  have h1: "(1::nat) \<le> 2 \<and> (2::nat) \<le> 7 \<and> header_search 2 ''## a\<newline>### b\<newline>######## deep'' \<and>
      (\<forall>k \<in> {1..<2}. \<not> header_search k ''## a\<newline>### b\<newline>######## deep'')"
  proof -
    have "{1..<2} = {1::nat}" by auto
    with s1 s2 show ?thesis by simp
  qed
  have v1: "decrease_header_level ''## a\<newline>### b\<newline>######## deep'' = ''# a\<newline>## b\<newline>######## deep''"
    by code_simp
  have l2: "list_all (\<lambda>k. \<not> header_search k ''plain\<newline>######## deep'') [1..<8]"
    by code_simp
  then have h2: "\<forall>k \<in> {1..7}. \<not> header_search k ''plain\<newline>######## deep''"
    by (simp add: list_all_iff)
  from decrease_header_level_normalises [of 2 "''## a\<newline>### b\<newline>######## deep''"] h1
  have c1: "get_top_level_header (decrease_header_level ''## a\<newline>### b\<newline>######## deep'') = Some 1"
    by blast
  from decrease_header_level_normalises [of 1 "''plain\<newline>######## deep''"] h2
  have c2: "get_top_level_header ''plain\<newline>######## deep'' = None \<and>
            decrease_header_level ''plain\<newline>######## deep'' = ''plain\<newline>######## deep''"
    by blast
  from s1 s2 v1 l2 c1 c2 show ?thesis by blast
qed

text \<open>
  C6. Running the detect-and-rewrite step on its own result changes nothing: after one
  run the detected top level is 1 or \<open>None\<close>.
\<close>

theorem decrease_header_level_idempotent:
  "decrease_header_level (decrease_header_level md) = decrease_header_level md \<and>
   get_top_level_header (decrease_header_level md) \<in> {None, Some 1}"
proof (cases "get_top_level_header md")
  case None
  then show ?thesis by (simp add: decrease_header_level_None)
next
  case (Some t)
  then have "get_top_level_header (decrease_header_level md) = Some 1"
    by (rule get_top_after_decrease)
  then show ?thesis by (simp add: decrease_header_level_top_one)
qed

section \<open>Claims on the export of a page\<close>

text \<open>
  C1. The image loop replaces more than the matched span: the slice after the match starts
  one character too far (\<open>match.end() + 1\<close>), so the character that follows the match is
  lost. For the base URL \<open>http://h\<close> and a page whose text is one image reference
  followed by \<open>Z\<close>, the written text is \<open>![](f.png)\<close> without the \<open>Z\<close>.
\<close>

theorem image_replacement_drops_next_character:
  "main (serve 200 ''PNG'') ''http://h'' \<lparr>root = [], parts = [''export'']\<rparr>
     [\<lparr>shelf = ''S'', book = ''B'', page_title = ''Intro'',
       page_markdown = ''[![a](http://h/uploads/t.png)](http://h/uploads/i/f.png)Z'',
       draft = False\<rparr>] =
   Inr [Echo ''> Connecting to DB'',
        Echo ''> Retrieving all documents from db'',
        Echo ''> Exporting all documents as markdown'',
        MakeDirs \<lparr>root = [], parts = [''export'', ''S'', ''B'']\<rparr>,
        Echo ''Found embedded image in B => Intro: f.png'',
        HttpGet ''http://h/uploads/i/f.png'',
        WriteBinary \<lparr>root = [], parts = [''export'', ''S'', ''B'', ''f.png'']\<rparr> ''PNG'',
        WriteText \<lparr>root = [], parts = [''export'', ''S'', ''B'', ''Intro.md'']\<rparr>
          ''# Intro\<newline>\<newline>![](f.png)'']"
  by code_simp

text \<open>
  C2. The context of an internal link is the slice from \<open>start - 60\<close> to \<open>start\<close>. When the
  match starts before offset 60, \<open>start - 60\<close> is negative and counts from the end of the
  text: in a text of 60 characters or more the slice is empty and no context line is
  printed. Here the link starts at offset 17 of a text of 102 characters.
\<close>

theorem link_context_lost_near_start:
  "main (serve 200 ''PNG'') ''http://h'' \<lparr>root = [], parts = [''export'']\<rparr>
     [\<lparr>shelf = ''S'', book = ''B'', page_title = ''Intro'',
       page_markdown = ''see [p](http://h/books/b/page/p) for more; this text is long enough to pass sixty characters.'',
       draft = False\<rparr>] =
   Inr [Echo ''> Connecting to DB'',
        Echo ''> Retrieving all documents from db'',
        Echo ''> Exporting all documents as markdown'',
        MakeDirs \<lparr>root = [], parts = [''export'', ''S'', ''B'']\<rparr>,
        Echo ''>> Internal link found in [Intro] to [b]/[p]'',
        WriteText \<lparr>root = [], parts = [''export'', ''S'', ''B'', ''Intro.md'']\<rparr>
          ''# Intro\<newline>\<newline>see [p](http://h/books/b/page/p) for more; this text is long enough to pass sixty characters.'',
        Echo (''Manual cleanup required. See '' @ [CHR 0x27] @ ''>>'' @ [CHR 0x27] @ '' messages above.'')]"
  by code_simp

text \<open>
  C3, as the code has it. The text written for a page is the title heading, that is
  \<open># \<close>, then \<open>DRAFT: \<close> exactly when the page is a draft, then the title and two
  newlines, followed by the rewritten page text: the text the image loop leaves (the
  text of the page itself when it has no image match), after the heading rewrite. It is
  the only page file the export of the page writes. The rewritten page text has top
  level 1 whenever it has a heading of level 1 to 7, so the title need not be the only
  level-1 heading.
\<close>

theorem export_doc_writes_title_heading:
  assumes "export_doc http export_path doc image_link_regex internal_link_regex trace =
           Inr (found, doc', trace')"
  shows "\<exists>events doc1 trace1.
           image_loop http (path_div (path_div export_path (shelf doc)) (book doc)) doc
             (rev (finditer image_link_regex (page_markdown doc)))
             (trace @ [MakeDirs (path_div (path_div export_path (shelf doc)) (book doc))]) =
           Inr (doc1, trace1) \<and>
           (finditer image_link_regex (page_markdown doc) = [] \<longrightarrow> doc1 = doc) \<and>
           list_all (\<lambda>ev. \<not> is_write_text ev) events \<and>
           get_top_level_header (decrease_header_level (page_markdown doc1)) \<in> {None, Some 1} \<and>
           page_markdown doc' =
             ''# '' @ (if draft doc then ''DRAFT: '' else []) @ page_title doc @ [NL, NL] @
             decrease_header_level (page_markdown doc1) \<and>
           trace' = trace @ events @
             [WriteText (path_div (path_div (path_div export_path (shelf doc)) (book doc))
                           (py_replace ''/'' ''-'' (page_title doc) @ ''.md''))
                (''# '' @ (if draft doc then ''DRAFT: '' else []) @ page_title doc @ [NL, NL] @
                 decrease_header_level (page_markdown doc1))]"
proof -
  let ?dir = "path_div (path_div export_path (shelf doc)) (book doc)"
  from export_doc_Inr [OF assms] obtain doc1 events trace1 where
    il: "image_loop http ?dir doc (rev (finditer image_link_regex (page_markdown doc)))
           (trace @ [MakeDirs ?dir]) = Inr (doc1, trace1)"
    and d: "doc' = doc1\<lparr>page_markdown :=
                    title_heading doc @ decrease_header_level (page_markdown doc1)\<rparr>"
    and e: "list_all (\<lambda>ev. \<not> is_write_text ev) events"
    and t: "trace' = trace @ events @
             [WriteText (path_div ?dir (py_replace ''/'' ''-'' (page_title doc) @ ''.md''))
                (page_markdown doc')]"
    by blast
  let ?body = "decrease_header_level (page_markdown doc1)"
  have top: "get_top_level_header ?body \<in> {None, Some 1}"
  proof (cases "get_top_level_header (page_markdown doc1)")
    case None
    then show ?thesis by (simp add: decrease_header_level_None)
  next
    case (Some t)
    then show ?thesis by (simp add: get_top_after_decrease)
  qed
  have md: "page_markdown doc' =
      ''# '' @ (if draft doc then ''DRAFT: '' else []) @ page_title doc @ [NL, NL] @ ?body"
    using d by (simp add: title_heading_def)
  have same: "finditer image_link_regex (page_markdown doc) = [] \<longrightarrow> doc1 = doc"
    using il by auto
  from t have t': "trace' = trace @ events @
             [WriteText (path_div ?dir (py_replace ''/'' ''-'' (page_title doc) @ ''.md''))
                (''# '' @ (if draft doc then ''DRAFT: '' else []) @ page_title doc @ [NL, NL] @ ?body)]"
    unfolding md .
  from il same e top md t' show ?thesis by blast
qed

theorem export_doc_writes_title_heading_witness:
  "export_doc (serve 200 ''PNG'') \<lparr>root = [], parts = [''export'']\<rparr>
     \<lparr>shelf = ''S'', book = ''B'', page_title = ''Intro'', page_markdown = ''## text'',
      draft = True\<rparr>
     (compiled (image_link_pattern ''http://h'')) (compiled (internal_link_pattern ''http://h''))
     [] =
   Inr (False,
        \<lparr>shelf = ''S'', book = ''B'', page_title = ''Intro'',
         page_markdown = ''# DRAFT: Intro\<newline>\<newline># text'', draft = True\<rparr>,
        [MakeDirs \<lparr>root = [], parts = [''export'', ''S'', ''B'']\<rparr>,
         WriteText \<lparr>root = [], parts = [''export'', ''S'', ''B'', ''Intro.md'']\<rparr>
           ''# DRAFT: Intro\<newline>\<newline># text'']) \<and>
   finditer (compiled (image_link_pattern ''http://h'')) ''## text'' = [] \<and>
   ''# DRAFT: Intro\<newline>\<newline># text'' =
     ''# DRAFT: Intro'' @ [NL, NL] @ decrease_header_level ''## text''"
proof -
  let ?doc = "\<lparr>shelf = ''S'', book = ''B'', page_title = ''Intro'', page_markdown = ''## text'',
      draft = True\<rparr>"
  have run: "export_doc (serve 200 ''PNG'') \<lparr>root = [], parts = [''export'']\<rparr> ?doc
     (compiled (image_link_pattern ''http://h'')) (compiled (internal_link_pattern ''http://h''))
     [] =
   Inr (False,
        \<lparr>shelf = ''S'', book = ''B'', page_title = ''Intro'',
         page_markdown = ''# DRAFT: Intro\<newline>\<newline># text'', draft = True\<rparr>,
        [MakeDirs \<lparr>root = [], parts = [''export'', ''S'', ''B'']\<rparr>,
         WriteText \<lparr>root = [], parts = [''export'', ''S'', ''B'', ''Intro.md'']\<rparr>
           ''# DRAFT: Intro\<newline>\<newline># text''])"
    by code_simp
  have none: "finditer (compiled (image_link_pattern ''http://h'')) (page_markdown ?doc) = []"
    by code_simp
  from export_doc_writes_title_heading [OF run] obtain doc1 where
    same: "finditer (compiled (image_link_pattern ''http://h'')) (page_markdown ?doc) = [] \<longrightarrow>
           doc1 = ?doc"
    and md: "page_markdown
       \<lparr>shelf = ''S'', book = ''B'', page_title = ''Intro'',
         page_markdown = ''# DRAFT: Intro\<newline>\<newline># text'', draft = True\<rparr> =
       ''# '' @ (if draft ?doc then ''DRAFT: '' else []) @ page_title ?doc @ [NL, NL] @
       decrease_header_level (page_markdown doc1)"
    by blast
  from same none have "doc1 = ?doc" by blast
  with md have "''# DRAFT: Intro\<newline>\<newline># text'' =
     ''# DRAFT: Intro'' @ [NL, NL] @ decrease_header_level ''## text''"
    by simp
  with run none show ?thesis by simp
qed

text \<open>
  C3, as the claim has it, fails on the first end-to-end scenario of the specification:
  the page text \<open>## Hello\<close> is rewritten to \<open># Hello\<close>, and the written text has two
  level-1 heading lines, the title and this one.
\<close>

theorem second_level_one_heading_counterexample:
  "export_doc (serve 200 ''PNG'') \<lparr>root = [], parts = [''export'']\<rparr>
     \<lparr>shelf = ''S'', book = ''B'', page_title = ''Intro'', page_markdown = ''## Hello'',
      draft = False\<rparr>
     (compiled (image_link_pattern ''http://h'')) (compiled (internal_link_pattern ''http://h''))
     [] =
   Inr (False,
        \<lparr>shelf = ''S'', book = ''B'', page_title = ''Intro'',
         page_markdown = ''# Intro\<newline>\<newline># Hello'', draft = False\<rparr>,
        [MakeDirs \<lparr>root = [], parts = [''export'', ''S'', ''B'']\<rparr>,
         WriteText \<lparr>root = [], parts = [''export'', ''S'', ''B'', ''Intro.md'']\<rparr>
           ''# Intro\<newline>\<newline># Hello'']) \<and>
   map heading_level (text_lines ''# Intro\<newline>\<newline># Hello'') = [Some 1, None, Some 1]"
  by code_simp

text \<open>
  C9, as the code has it. The file name of a page is its title with every \<open>/\<close> turned
  into \<open>-\<close>, followed by \<open>.md\<close>: it has no \<open>/\<close> and is one component of the path,
  added to the directory of the book. Shelf and book go into the path as they are, read
  as paths: a book that begins with \<open>/\<close> is the whole directory, otherwise a shelf that
  begins with \<open>/\<close> takes the place of the export root, otherwise both follow the
  export root. Each is cut at every \<open>/\<close>, and the empty components and the components
  \<open>.\<close> are dropped: \<open>a/b\<close> gives the components of \<open>a\<close> and then those of \<open>b\<close>, a
  name without \<open>/\<close> other than \<open>.\<close> is one component, and the empty name and \<open>.\<close>
  give none.
\<close>

theorem page_path_components:
  assumes "export_doc http export_path doc image_link_regex internal_link_regex trace =
           Inr (found, doc', trace')"
  shows "(\<exists>events content.
            list_all (\<lambda>ev. \<not> is_write_text ev) events \<and>
            trace' = trace @ events @
              [WriteText
                 \<lparr>root = root (path_div (path_div export_path (shelf doc)) (book doc)),
                  parts = parts (path_div (path_div export_path (shelf doc)) (book doc)) @
                    [map (\<lambda>c. if c = CHR ''/'' then CHR ''-'' else c) (page_title doc) @ ''.md'']\<rparr>
                 content]) \<and>
         CHR ''/'' \<notin> set (map (\<lambda>c. if c = CHR ''/'' then CHR ''-'' else c) (page_title doc) @ ''.md'') \<and>
         path_div (path_div export_path (shelf doc)) (book doc) =
           (if path_root (book doc) \<noteq> []
            then \<lparr>root = path_root (book doc), parts = path_parts (book doc)\<rparr>
            else if path_root (shelf doc) \<noteq> []
            then \<lparr>root = path_root (shelf doc),
                  parts = path_parts (shelf doc) @ path_parts (book doc)\<rparr>
            else \<lparr>root = root export_path,
                  parts = parts export_path @ path_parts (shelf doc) @ path_parts (book doc)\<rparr>) \<and>
         (\<forall>s. (path_root s = []) = (\<not> prefix ''/'' s)) \<and>
         path_parts [] = [] \<and> path_parts ''.'' = [] \<and>
         (\<forall>p. CHR ''/'' \<notin> set p \<and> p \<noteq> [] \<and> p \<noteq> ''.'' \<longrightarrow> path_parts p = [p]) \<and>
         (\<forall>a b. path_parts (a @ ''/'' @ b) = path_parts a @ path_parts b)"
proof -
  let ?name = "map (\<lambda>c. if c = CHR ''/'' then CHR ''-'' else c) (page_title doc)"
  let ?dir = "path_div (path_div export_path (shelf doc)) (book doc)"
  have plain: "CHR ''/'' \<notin> set ?name" by auto
  from export_doc_Inr [OF assms] obtain events where
    e: "list_all (\<lambda>ev. \<not> is_write_text ev) events"
    and t: "trace' = trace @ events @
             [WriteText (path_div ?dir (py_replace ''/'' ''-'' (page_title doc) @ ''.md''))
                (page_markdown doc')]"
    by blast
  have "path_div ?dir (py_replace ''/'' ''-'' (page_title doc) @ ''.md'') =
        \<lparr>root = root ?dir, parts = parts ?dir @ [?name @ ''.md'']\<rparr>"
    unfolding py_replace_slash by (rule path_div_file_name [OF plain])
  with e t have first: "\<exists>events content.
            list_all (\<lambda>ev. \<not> is_write_text ev) events \<and>
            trace' = trace @ events @
              [WriteText \<lparr>root = root ?dir, parts = parts ?dir @ [?name @ ''.md'']\<rparr> content]"
    by auto
  have name: "CHR ''/'' \<notin> set (?name @ ''.md'')" using plain by simp
  have empty: "path_parts [] = []" "path_parts ''.'' = []"
    by (simp_all add: path_parts_def)
  note dir = path_to_book_cases [of export_path "shelf doc" "book doc"]
  from first name dir path_root_empty empty path_parts_component path_parts_append
  show ?thesis by blast
qed

theorem page_path_components_witness:
  "export_doc (serve 200 ''PNG'') \<lparr>root = [], parts = [''export'']\<rparr>
     \<lparr>shelf = ''x/./y'', book = ''B'', page_title = ''A/B'', page_markdown = ''text'',
      draft = False\<rparr>
     (compiled (image_link_pattern ''http://h'')) (compiled (internal_link_pattern ''http://h''))
     [] =
   Inr (False,
        \<lparr>shelf = ''x/./y'', book = ''B'', page_title = ''A/B'',
         page_markdown = ''# A/B\<newline>\<newline>text'', draft = False\<rparr>,
        [MakeDirs \<lparr>root = [], parts = [''export'', ''x'', ''y'', ''B'']\<rparr>,
         WriteText \<lparr>root = [], parts = [''export'', ''x'', ''y'', ''B'', ''A-B.md'']\<rparr>
           ''# A/B\<newline>\<newline>text'']) \<and>
   export_doc (serve 200 ''PNG'') \<lparr>root = [], parts = [''export'']\<rparr>
     \<lparr>shelf = ''/abs'', book = ''B'', page_title = ''T'', page_markdown = ''text'',
      draft = False\<rparr>
     (compiled (image_link_pattern ''http://h'')) (compiled (internal_link_pattern ''http://h''))
     [] =
   Inr (False,
        \<lparr>shelf = ''/abs'', book = ''B'', page_title = ''T'',
         page_markdown = ''# T\<newline>\<newline>text'', draft = False\<rparr>,
        [MakeDirs \<lparr>root = ''/'', parts = [''abs'', ''B'']\<rparr>,
         WriteText \<lparr>root = ''/'', parts = [''abs'', ''B'', ''T.md'']\<rparr>
           ''# T\<newline>\<newline>text'']) \<and>
   path_div (path_div \<lparr>root = [], parts = [''export'']\<rparr> ''x/./y'') ''B'' =
     \<lparr>root = [], parts = [''export''] @ path_parts ''x/./y'' @ path_parts ''B''\<rparr> \<and>
   path_div (path_div \<lparr>root = [], parts = [''export'']\<rparr> ''/abs'') ''B'' =
     \<lparr>root = path_root ''/abs'', parts = path_parts ''/abs'' @ path_parts ''B''\<rparr> \<and>
   path_parts ''x/./y'' = [''x'', ''y''] \<and> path_root ''/abs'' = ''/''"
proof -
  let ?d1 = "\<lparr>shelf = ''x/./y'', book = ''B'', page_title = ''A/B'', page_markdown = ''text'',
      draft = False\<rparr>"
  let ?d2 = "\<lparr>shelf = ''/abs'', book = ''B'', page_title = ''T'', page_markdown = ''text'',
      draft = False\<rparr>"
  have run1: "export_doc (serve 200 ''PNG'') \<lparr>root = [], parts = [''export'']\<rparr> ?d1
     (compiled (image_link_pattern ''http://h'')) (compiled (internal_link_pattern ''http://h''))
     [] =
   Inr (False,
        \<lparr>shelf = ''x/./y'', book = ''B'', page_title = ''A/B'',
         page_markdown = ''# A/B\<newline>\<newline>text'', draft = False\<rparr>,
        [MakeDirs \<lparr>root = [], parts = [''export'', ''x'', ''y'', ''B'']\<rparr>,
         WriteText \<lparr>root = [], parts = [''export'', ''x'', ''y'', ''B'', ''A-B.md'']\<rparr>
           ''# A/B\<newline>\<newline>text''])"
    by code_simp
  have run2: "export_doc (serve 200 ''PNG'') \<lparr>root = [], parts = [''export'']\<rparr> ?d2
     (compiled (image_link_pattern ''http://h'')) (compiled (internal_link_pattern ''http://h''))
     [] =
   Inr (False,
        \<lparr>shelf = ''/abs'', book = ''B'', page_title = ''T'',
         page_markdown = ''# T\<newline>\<newline>text'', draft = False\<rparr>,
        [MakeDirs \<lparr>root = ''/'', parts = [''abs'', ''B'']\<rparr>,
         WriteText \<lparr>root = ''/'', parts = [''abs'', ''B'', ''T.md'']\<rparr>
           ''# T\<newline>\<newline>text''])"
    by code_simp
  have r: "path_root ''x/./y'' = []" "path_root ''B'' = []" "path_root ''/abs'' = ''/''"
    by code_simp+
  have v: "path_parts ''x/./y'' = [''x'', ''y'']" by code_simp
  note d1 = page_path_components [OF run1, THEN conjunct2, THEN conjunct2, THEN conjunct1]
  note d2 = page_path_components [OF run2, THEN conjunct2, THEN conjunct2, THEN conjunct1]
  have p1: "path_div (path_div \<lparr>root = [], parts = [''export'']\<rparr> ''x/./y'') ''B'' =
     \<lparr>root = [], parts = [''export''] @ path_parts ''x/./y'' @ path_parts ''B''\<rparr>"
    using d1 by (simp only: PageDetails.select_convs path.select_convs r if_False simp_thms)
  have p2: "path_div (path_div \<lparr>root = [], parts = [''export'']\<rparr> ''/abs'') ''B'' =
     \<lparr>root = path_root ''/abs'', parts = path_parts ''/abs'' @ path_parts ''B''\<rparr>"
    using d2 r(3) by (simp only: PageDetails.select_convs r(2) if_False simp_thms) simp
  show ?thesis
    by (intro conjI) (rule run1 run2 p1 p2 v r(3))+
qed

text \<open>
  C9, as the claim has it, fails for a shelf that has a \<open>/\<close> with nothing after it: the
  page of the shelf \<open>a/\<close> goes to \<open>export/a/B\<close>, where the page of a shelf \<open>a\<close> goes,
  with no further directory.
\<close>

theorem shelf_with_slash_counterexample:
  "export_doc (serve 200 ''PNG'') \<lparr>root = [], parts = [''export'']\<rparr>
     \<lparr>shelf = ''a/'', book = ''B'', page_title = ''Intro'', page_markdown = ''text'',
      draft = False\<rparr>
     (compiled (image_link_pattern ''http://h'')) (compiled (internal_link_pattern ''http://h''))
     [] =
   Inr (False,
        \<lparr>shelf = ''a/'', book = ''B'', page_title = ''Intro'',
         page_markdown = ''# Intro\<newline>\<newline>text'', draft = False\<rparr>,
        [MakeDirs \<lparr>root = [], parts = [''export'', ''a'', ''B'']\<rparr>,
         WriteText \<lparr>root = [], parts = [''export'', ''a'', ''B'', ''Intro.md'']\<rparr>
           ''# Intro\<newline>\<newline>text'']) \<and>
   path_div (path_div \<lparr>root = [], parts = [''export'']\<rparr> ''a/'') ''B'' =
   path_div (path_div \<lparr>root = [], parts = [''export'']\<rparr> ''a'') ''B''"
  by code_simp




text \<open>
  C7. For a pattern with the groups 1 and 2, the loop over the links of a text never
  raises, and the flag it returns is true exactly when the pattern matches at some offset
  of the text. When \<open>export_doc\<close> returns, its flag says so of the text the page then
  holds, and this text, the one that was scanned, is the text that is written. The
  internal-link pattern of a base URL without operators other than the dot compiles
  and has the groups 1 and 2.
\<close>

theorem internal_link_flag:
  "(has_group internal_link_regex 1 \<and> has_group internal_link_regex 2 \<longrightarrow>
      (\<exists>events.
         link_loop doc (finditer internal_link_regex (page_markdown doc)) False trace =
           Inr (\<exists>i \<le> length (page_markdown doc). match_at internal_link_regex (page_markdown doc) i,
                trace @ events))) \<and>
   (export_doc http export_path doc image_link_regex internal_link_regex trace =
      Inr (found, doc', trace') \<longrightarrow>
      (found \<longleftrightarrow>
         (\<exists>i \<le> length (page_markdown doc'). match_at internal_link_regex (page_markdown doc') i)) \<and>
      (\<exists>doc1 :: PageDetails. page_markdown doc' =
                title_heading doc @ decrease_header_level (page_markdown doc1)) \<and>
      (\<exists>events p. list_all (\<lambda>ev. \<not> is_write_text ev) events \<and>
                  trace' = trace @ events @ [WriteText p (page_markdown doc')])) \<and>
   ((\<forall>c \<in> set url. url_char c) \<longrightarrow>
      (\<exists>r. re_compile (internal_link_pattern url) = Inr r \<and> has_group r 1 \<and> has_group r 2))"
proof (intro conjI impI)
  assume g: "has_group internal_link_regex 1 \<and> has_group internal_link_regex 2"
  let ?ms = "finditer internal_link_regex (page_markdown doc)"
  have "\<forall>m \<in> set ?ms. (\<exists>g1. group m 1 = Inr g1) \<and> (\<exists>g2. group m 2 = Inr g2)"
    using g finditer_groups by blast
  from link_loop_total [OF this, of doc False trace] obtain found' trace' where
    r: "link_loop doc ?ms False trace = Inr (found', trace')" by blast
  from link_loop_Inr [OF r] obtain events where
    "found' \<longleftrightarrow> ?ms \<noteq> []" "trace' = trace @ events" by auto
  with r show "\<exists>events. link_loop doc ?ms False trace =
      Inr (\<exists>i \<le> length (page_markdown doc). match_at internal_link_regex (page_markdown doc) i,
           trace @ events)"
    by (auto simp: finditer_nonempty)
next
  assume r: "export_doc http export_path doc image_link_regex internal_link_regex trace =
      Inr (found, doc', trace')"
  from export_doc_Inr [OF r] obtain doc1 events where
    d: "doc' = doc1\<lparr>page_markdown :=
                    title_heading doc @ decrease_header_level (page_markdown doc1)\<rparr>"
    and f: "found \<longleftrightarrow> finditer internal_link_regex (page_markdown doc') \<noteq> []"
    and e: "list_all (\<lambda>ev. \<not> is_write_text ev) events"
    and t: "trace' = trace @ events @
             [WriteText (path_div (path_div (path_div export_path (shelf doc)) (book doc))
                           (py_replace ''/'' ''-'' (page_title doc) @ ''.md''))
                (page_markdown doc')]"
    by blast
  from f show "found \<longleftrightarrow>
      (\<exists>i \<le> length (page_markdown doc'). match_at internal_link_regex (page_markdown doc') i)"
    by (simp add: finditer_nonempty)
  from d have "page_markdown doc' =
      title_heading doc @ decrease_header_level (page_markdown doc1)"
    by simp
  then show "\<exists>doc1 :: PageDetails. page_markdown doc' =
      title_heading doc @ decrease_header_level (page_markdown doc1)" ..
  from e t show "\<exists>events p. list_all (\<lambda>ev. \<not> is_write_text ev) events \<and>
      trace' = trace @ events @ [WriteText p (page_markdown doc')]"
    by blast
next
  assume "\<forall>c \<in> set url. url_char c"
  then have "\<forall>c \<in> set (rstrip ''/'' url). url_char c"
    using rstrip_subset [of "''/''" url] by blast
  from compile_internal_link_pattern [OF this] internal_link_pattern_groups
  show "\<exists>r. re_compile (internal_link_pattern url) = Inr r \<and> has_group r 1 \<and> has_group r 2"
    by blast
qed

theorem internal_link_flag_witness:
  "has_group (compiled (internal_link_pattern ''http://h'')) 1 \<and>
   has_group (compiled (internal_link_pattern ''http://h'')) 2 \<and>
   export_doc (serve 200 ''PNG'') \<lparr>root = [], parts = [''export'']\<rparr>
     \<lparr>shelf = ''S'', book = ''B'', page_title = ''T'',
      page_markdown = ''see [p](http://h/books/b/page/p)'', draft = False\<rparr>
     (compiled (image_link_pattern ''http://h'')) (compiled (internal_link_pattern ''http://h''))
     [] =
   Inr (True,
        \<lparr>shelf = ''S'', book = ''B'', page_title = ''T'',
         page_markdown = ''# T\<newline>\<newline>see [p](http://h/books/b/page/p)'', draft = False\<rparr>,
        [MakeDirs \<lparr>root = [], parts = [''export'', ''S'', ''B'']\<rparr>,
         Echo ''>> Internal link found in [T] to [b]/[p]'',
         Echo ''    # T'', Echo ''    '', Echo ''    see [p]('',
         WriteText \<lparr>root = [], parts = [''export'', ''S'', ''B'', ''T.md'']\<rparr>
           ''# T\<newline>\<newline>see [p](http://h/books/b/page/p)'']) \<and>
   (\<exists>i \<le> length ''# T\<newline>\<newline>see [p](http://h/books/b/page/p)''.
      match_at (compiled (internal_link_pattern ''http://h''))
        ''# T\<newline>\<newline>see [p](http://h/books/b/page/p)'' i) \<and>
   (\<exists>events.
      link_loop
        \<lparr>shelf = ''S'', book = ''B'', page_title = ''T'', page_markdown = ''no link'',
         draft = False\<rparr>
        (finditer (compiled (internal_link_pattern ''http://h''))
           (page_markdown
              \<lparr>shelf = ''S'', book = ''B'', page_title = ''T'', page_markdown = ''no link'',
               draft = False\<rparr>))
        False [] =
      Inr (\<exists>i \<le> length (page_markdown
              \<lparr>shelf = ''S'', book = ''B'', page_title = ''T'', page_markdown = ''no link'',
               draft = False\<rparr>).
             match_at (compiled (internal_link_pattern ''http://h''))
               (page_markdown
                 \<lparr>shelf = ''S'', book = ''B'', page_title = ''T'', page_markdown = ''no link'',
                  draft = False\<rparr>) i,
           [] @ events))"
proof -
  have g: "has_group (compiled (internal_link_pattern ''http://h'')) 1 \<and>
           has_group (compiled (internal_link_pattern ''http://h'')) 2"
    by code_simp
  have run: "export_doc (serve 200 ''PNG'') \<lparr>root = [], parts = [''export'']\<rparr>
     \<lparr>shelf = ''S'', book = ''B'', page_title = ''T'',
      page_markdown = ''see [p](http://h/books/b/page/p)'', draft = False\<rparr>
     (compiled (image_link_pattern ''http://h'')) (compiled (internal_link_pattern ''http://h''))
     [] =
   Inr (True,
        \<lparr>shelf = ''S'', book = ''B'', page_title = ''T'',
         page_markdown = ''# T\<newline>\<newline>see [p](http://h/books/b/page/p)'', draft = False\<rparr>,
        [MakeDirs \<lparr>root = [], parts = [''export'', ''S'', ''B'']\<rparr>,
         Echo ''>> Internal link found in [T] to [b]/[p]'',
         Echo ''    # T'', Echo ''    '', Echo ''    see [p]('',
         WriteText \<lparr>root = [], parts = [''export'', ''S'', ''B'', ''T.md'']\<rparr>
           ''# T\<newline>\<newline>see [p](http://h/books/b/page/p)''])"
    by code_simp
  note both = internal_link_flag [of "compiled (internal_link_pattern ''http://h'')"]
  from both [THEN conjunct2, THEN conjunct1, rule_format, OF run, THEN conjunct1]
  have m: "\<exists>i \<le> length ''# T\<newline>\<newline>see [p](http://h/books/b/page/p)''.
      match_at (compiled (internal_link_pattern ''http://h''))
        ''# T\<newline>\<newline>see [p](http://h/books/b/page/p)'' i"
    by (simp only: PageDetails.select_convs simp_thms)
  from both [THEN conjunct1, rule_format, OF g] g run m show ?thesis by blast
qed

section \<open>Claim on the patterns built from the base URL\<close>

text \<open>
  C10, as the code has it. The base URL goes into the two templates as it is. When it
  has a dot and no other operator of the pattern language, both patterns compile and
  each dot compiles to the class of all characters but the line feed. The internal-link
  pattern then matches a text without the base URL: the base URL with \<open>X\<close> in the
  place of every dot, followed by the rest of a link. So does the image pattern, unless
  the base URL is the single dot, which every image reference holds before its file
  extension.
\<close>

theorem unescaped_base_url_matches_other_text:
  assumes "CHR ''.'' \<in> set url" and "\<forall>c \<in> set url. url_char c"
  shows "\<exists>image_link_regex internal_link_regex.
           re_compile (image_link_pattern url) = Inr image_link_regex \<and>
           re_compile (internal_link_pattern url) = Inr internal_link_regex \<and>
           Atom AnyChar \<in> set image_link_regex \<and>
           Atom AnyChar \<in> set internal_link_regex \<and>
           finditer internal_link_regex (link_text (rstrip ''/'' url)) \<noteq> [] \<and>
           \<not> sublist url (link_text (rstrip ''/'' url)) \<and>
           \<not> sublist (rstrip ''/'' url) (link_text (rstrip ''/'' url)) \<and>
           finditer image_link_regex (image_text (rstrip ''/'' url)) \<noteq> [] \<and>
           (rstrip ''/'' url \<noteq> ''.'' \<longrightarrow>
              \<not> sublist url (image_text (rstrip ''/'' url)) \<and>
              \<not> sublist (rstrip ''/'' url) (image_text (rstrip ''/'' url)))"
proof -
  let ?b = "rstrip ''/'' url"
  let ?img = "image_head @ map atom_of ?b @ image_middle @ map atom_of ?b @ image_tail"
  let ?lnk = "map atom_of ?b @ link_tail"
  have chars: "\<forall>c \<in> set ?b. url_char c"
    using assms(2) rstrip_subset [of "''/''" url] by blast
  have dot: "CHR ''.'' \<in> set ?b"
    using assms(1) by (rule rstrip_keeps) simp
  then have any: "Atom AnyChar \<in> set (map atom_of ?b)"
    by (force simp: atom_of_def)
  obtain k where k: "url = ?b @ k" using rstrip_prefix by blast
  have whole: "\<not> sublist url t" if "\<not> sublist ?b t" for t
    using that sublist_of_prefix [of ?b k t] k by auto
  have "finditer ?img (image_text ?b) \<noteq> []"
    unfolding finditer_nonempty match_at_def
    using match_image_text [of ?b] by (intro exI [of _ 0]) simp
  moreover have "finditer ?lnk (link_text ?b) \<noteq> []"
    unfolding finditer_nonempty match_at_def
    using match_link_text [of ?b] by (intro exI [of _ 0]) simp
  moreover have "Atom AnyChar \<in> set ?img" "Atom AnyChar \<in> set ?lnk"
    using any by simp_all
  moreover have "\<not> sublist ?b (link_text ?b)" "\<not> sublist url (link_text ?b)"
    using link_text_avoids [OF dot] link_text_avoids [OF assms(1)] by blast+
  moreover have "?b \<noteq> ''.'' \<longrightarrow>
      \<not> sublist url (image_text ?b) \<and> \<not> sublist ?b (image_text ?b)"
    using image_text_avoids [OF chars dot] whole by blast
  ultimately show ?thesis
    using compile_image_link_pattern [OF chars] compile_internal_link_pattern [OF chars]
    by blast
qed

theorem unescaped_base_url_matches_other_text_witness:
  "CHR ''.'' \<in> set ''http://wiki.example.com/'' \<and>
   list_all url_char ''http://wiki.example.com/'' \<and>
   rstrip ''/'' ''http://wiki.example.com/'' = ''http://wiki.example.com'' \<and>
   link_text ''http://wiki.example.com'' = ''http://wikiXexampleXcom/books/a/page/b)'' \<and>
   finditer (compiled (internal_link_pattern ''http://wiki.example.com/''))
     ''http://wikiXexampleXcom/books/a/page/b)'' \<noteq> [] \<and>
   \<not> sublist ''http://wiki.example.com'' ''http://wikiXexampleXcom/books/a/page/b)'' \<and>
   image_text ''http://wiki.example.com'' =
     ''[![a](http://wikiXexampleXcom/uploads/(.png)](http://wikiXexampleXcom/uploads/d/(.png)'' \<and>
   finditer (compiled (image_link_pattern ''http://wiki.example.com/''))
     ''[![a](http://wikiXexampleXcom/uploads/(.png)](http://wikiXexampleXcom/uploads/d/(.png)''
     \<noteq> [] \<and>
   \<not> sublist ''http://wiki.example.com''
     ''[![a](http://wikiXexampleXcom/uploads/(.png)](http://wikiXexampleXcom/uploads/d/(.png)''"
proof -
  have d: "CHR ''.'' \<in> set ''http://wiki.example.com/''" by simp
  have l: "list_all url_char ''http://wiki.example.com/''" by code_simp
  then have c: "\<forall>c \<in> set ''http://wiki.example.com/''. url_char c"
    by (simp only: list_all_iff)
  have b: "rstrip ''/'' ''http://wiki.example.com/'' = ''http://wiki.example.com''"
    by code_simp
  have t1: "link_text ''http://wiki.example.com'' = ''http://wikiXexampleXcom/books/a/page/b)''"
    by code_simp
  have t2: "image_text ''http://wiki.example.com'' =
     ''[![a](http://wikiXexampleXcom/uploads/(.png)](http://wikiXexampleXcom/uploads/d/(.png)''"
    by code_simp
  have n: "''http://wiki.example.com'' \<noteq> ''.''" by simp
  from unescaped_base_url_matches_other_text [OF d c, unfolded b]
  obtain image_link_regex internal_link_regex where
    r: "re_compile (image_link_pattern ''http://wiki.example.com/'') = Inr image_link_regex"
       "re_compile (internal_link_pattern ''http://wiki.example.com/'') = Inr internal_link_regex"
    and m: "finditer image_link_regex (image_text ''http://wiki.example.com'') \<noteq> []"
       "finditer internal_link_regex (link_text ''http://wiki.example.com'') \<noteq> []"
    and s: "\<not> sublist ''http://wiki.example.com'' (link_text ''http://wiki.example.com'')"
       "''http://wiki.example.com'' \<noteq> ''.'' \<longrightarrow>
          \<not> sublist ''http://wiki.example.com/'' (image_text ''http://wiki.example.com'') \<and>
          \<not> sublist ''http://wiki.example.com'' (image_text ''http://wiki.example.com'')"
    by blast
  from r have "compiled (image_link_pattern ''http://wiki.example.com/'') = image_link_regex"
    "compiled (internal_link_pattern ''http://wiki.example.com/'') = internal_link_regex"
    by (simp_all add: compiled_def)
  with m s n d l b t1 t2 show ?thesis by (simp only: simp_thms)
qed

text \<open>
  C10, as the claim has it, fails for a base URL with a dot and an opening parenthesis:
  the parenthesis opens a group that nothing closes, and \<open>re.compile\<close> refuses both
  patterns, so there is no compiled pattern to match any text.
\<close>

theorem base_url_with_parenthesis_counterexample:
  "CHR ''.'' \<in> set ''h.io/('' \<and>
   re_compile (image_link_pattern ''h.io/('') = Inl BadPattern \<and>
   re_compile (internal_link_pattern ''h.io/('') = Inl BadPattern \<and>
   main (serve 200 []) ''h.io/('' \<lparr>root = [], parts = [''export'']\<rparr> [] = Inl (ReError, [])"
  by code_simp

end
